theory Spec2Isabelle
  imports Complex_Main "HOL-Library.Sublist" "HOL-Library.Log_Nat"
begin

section \<open>Strings and character classes\<close>

text \<open>
  A JavaScript string is a sequence of UTF-16 code units. The development models a string
  as a \<^typ>\<open>string\<close>, reading each \<^typ>\<open>char\<close> as the code unit with the same number
  (0 to 255, the Latin-1 range). Within that range the regular-expression classes
  \<open>\w\<close>, \<open>\s\<close>, the whitespace removed by \<open>trim()\<close>, \<open>toLowerCase()\<close> and
  case-insensitive matching are the following.
\<close>

definition ascii_upper :: string where
  "ascii_upper = ''ABCDEFGHIJKLMNOPQRSTUVWXYZ''"

definition ascii_lower :: string where
  "ascii_lower = ''abcdefghijklmnopqrstuvwxyz''"

definition latin1_upper :: string where
  \<comment> \<open>U+00C0 to U+00DE without the multiplication sign U+00D7\<close>
  "latin1_upper =
     [CHR 0xC0, CHR 0xC1, CHR 0xC2, CHR 0xC3, CHR 0xC4, CHR 0xC5, CHR 0xC6, CHR 0xC7,
      CHR 0xC8, CHR 0xC9, CHR 0xCA, CHR 0xCB, CHR 0xCC, CHR 0xCD, CHR 0xCE, CHR 0xCF,
      CHR 0xD0, CHR 0xD1, CHR 0xD2, CHR 0xD3, CHR 0xD4, CHR 0xD5, CHR 0xD6, CHR 0xD8,
      CHR 0xD9, CHR 0xDA, CHR 0xDB, CHR 0xDC, CHR 0xDD, CHR 0xDE]"

definition latin1_lower :: string where
  \<comment> \<open>U+00E0 to U+00FE without the division sign U+00F7\<close>
  "latin1_lower =
     [CHR 0xE0, CHR 0xE1, CHR 0xE2, CHR 0xE3, CHR 0xE4, CHR 0xE5, CHR 0xE6, CHR 0xE7,
      CHR 0xE8, CHR 0xE9, CHR 0xEA, CHR 0xEB, CHR 0xEC, CHR 0xED, CHR 0xEE, CHR 0xEF,
      CHR 0xF0, CHR 0xF1, CHR 0xF2, CHR 0xF3, CHR 0xF4, CHR 0xF5, CHR 0xF6, CHR 0xF8,
      CHR 0xF9, CHR 0xFA, CHR 0xFB, CHR 0xFC, CHR 0xFD, CHR 0xFE]"

definition is_word_char :: "char \<Rightarrow> bool" where
  \<comment> \<open>\<open>\w\<close>, that is \<open>[A-Za-z0-9_]\<close>\<close>
  "is_word_char c = (c \<in> set (ascii_upper @ ascii_lower @ ''0123456789_''))"

definition is_space_char :: "char \<Rightarrow> bool" where
  \<comment> \<open>\<open>\s\<close>: tab, line feed, vertical tab, form feed, carriage return, space, no-break space\<close>
  "is_space_char c =
     (c \<in> set [CHR 0x09, CHR 0x0A, CHR 0x0B, CHR 0x0C, CHR 0x0D, CHR 0x20, CHR 0xA0])"

definition lower_char :: "char \<Rightarrow> char" where
  \<comment> \<open>\<open>toLowerCase()\<close> on one code unit below 256\<close>
  "lower_char c =
     (case map_of (zip (ascii_upper @ latin1_upper) (ascii_lower @ latin1_lower)) c of
        Some l \<Rightarrow> l
      | None \<Rightarrow> c)"

definition toLowerCase :: "string \<Rightarrow> string" where
  "toLowerCase s = map lower_char s"

definition upper_ascii :: "char \<Rightarrow> char" where
  \<comment> \<open>the canonical form that a regular expression with flag \<open>i\<close> compares, as far as it
      decides a match with an ASCII pattern\<close>
  "upper_ascii c = (case map_of (zip ascii_lower ascii_upper) c of Some u \<Rightarrow> u | None \<Rightarrow> c)"

fun ci_prefix :: "string \<Rightarrow> string \<Rightarrow> bool" where
  \<comment> \<open>the text starts with the pattern, letters compared without case\<close>
  "ci_prefix [] s = True"
| "ci_prefix (p # ps) [] = False"
| "ci_prefix (p # ps) (c # cs) = (upper_ascii p = upper_ascii c \<and> ci_prefix ps cs)"

definition trim :: "string \<Rightarrow> string" where
  \<comment> \<open>\<open>String.prototype.trim\<close>\<close>
  "trim s = rev (dropWhile is_space_char (rev (dropWhile is_space_char s)))"

fun str_includes :: "string \<Rightarrow> string \<Rightarrow> bool" where
  \<comment> \<open>\<open>s.includes(t)\<close>: \<open>t\<close> occurs in \<open>s\<close> as a contiguous substring\<close>
  "str_includes [] t = (t = [])"
| "str_includes (c # cs) t = (prefix t (c # cs) \<or> str_includes cs t)"

section \<open>normalizeAnswer\<close>

function strip_tags :: "string \<Rightarrow> string" where
  \<comment> \<open>\<open>.replace(/<[^>]*>/g, '')\<close>\<close>
  "strip_tags [] = []"
| "strip_tags (c # cs) =
     (if c = CHR ''<'' \<and> CHR ''>'' \<in> set cs
      then strip_tags (tl (dropWhile (\<lambda>x. x \<noteq> CHR ''>'') cs))
      else c # strip_tags cs)"
  by pat_completeness auto
termination
proof (relation "measure length")
  fix c :: char and cs :: string
  have "length (tl (dropWhile (\<lambda>x. x \<noteq> CHR ''>'') cs)) \<le> length cs"
    using length_dropWhile_le [of "\<lambda>x. x \<noteq> CHR ''>''" cs] by simp
  then show "(tl (dropWhile (\<lambda>x. x \<noteq> CHR ''>'') cs), c # cs) \<in> measure length"
    by simp
qed simp_all

definition stopwords :: "string list" where
  "stopwords = [''the'', ''a'', ''an'', ''of'', ''or'', ''and'', ''in'', ''on'', ''at'', ''to'']"

definition word_boundary :: "bool \<Rightarrow> string \<Rightarrow> bool" where
  \<comment> \<open>\<open>\b\<close> at a position: \<open>prev_word\<close> says whether a word character stands before it
      (none does at the start of the text), \<open>rest\<close> is the text from the position on\<close>
  "word_boundary prev_word rest = (prev_word \<noteq> (rest \<noteq> [] \<and> is_word_char (hd rest)))"

fun match_alternatives :: "string list \<Rightarrow> string \<Rightarrow> nat option" where
  \<comment> \<open>\<open>(w1|w2|...)\b\<close> at the start of the text: the length of the first alternative, in
      the order written, that is followed by a word boundary\<close>
  "match_alternatives [] s = None"
| "match_alternatives (w # ws) s =
     (if prefix w s \<and> word_boundary (is_word_char (last w)) (drop (length w) s)
      then Some (length w) else match_alternatives ws s)"

definition match_stopword :: "bool \<Rightarrow> string \<Rightarrow> nat option" where
  \<comment> \<open>\<open>/\b(the|a|an|of|or|and|in|on|at|to)\b/\<close> at the current position\<close>
  "match_stopword prev_word s =
     (if word_boundary prev_word s then match_alternatives stopwords s else None)"

function remove_stopwords :: "bool \<Rightarrow> string \<Rightarrow> string" where
  \<comment> \<open>\<open>.replace(/\b(the|a|an|of|or|and|in|on|at|to)\b/g, '')\<close>; the flag says whether
      the character before the current position is a word character\<close>
  "remove_stopwords prev_word [] = []"
| "remove_stopwords prev_word (c # cs) =
     (case match_stopword prev_word (c # cs) of
        Some n \<Rightarrow> remove_stopwords (is_word_char ((c # cs) ! (n - 1))) (drop n (c # cs))
      | None \<Rightarrow> c # remove_stopwords (is_word_char c) cs)"
  by pat_completeness auto
termination
proof (relation "measure (\<lambda>(p, s). length s)")
  fix prev_word :: bool and c :: char and cs :: string and n :: nat
  assume m: "match_stopword prev_word (c # cs) = Some n"
  have "match_alternatives ws s = Some k \<Longrightarrow> [] \<notin> set ws \<Longrightarrow> 0 < k" for ws s k
    by (induction ws) (auto split: if_splits)
  with m have "0 < n"
    by (fastforce simp: match_stopword_def stopwords_def split: if_splits)
  then show "((is_word_char ((c # cs) ! (n - 1)), drop n (c # cs)), prev_word, c # cs)
      \<in> measure (\<lambda>(p, s). length s)"
    by simp
qed simp_all

definition strip_punctuation :: "string \<Rightarrow> string" where
  \<comment> \<open>\<open>.replace(/[^\w\s]/g, '')\<close>\<close>
  "strip_punctuation s = filter (\<lambda>c. is_word_char c \<or> is_space_char c) s"

function collapse_spaces :: "string \<Rightarrow> string" where
  \<comment> \<open>\<open>.replace(/\s+/g, ' ')\<close>\<close>
  "collapse_spaces [] = []"
| "collapse_spaces (c # cs) =
     (if is_space_char c then CHR '' '' # collapse_spaces (dropWhile is_space_char cs)
      else c # collapse_spaces cs)"
  by pat_completeness auto
termination
proof (relation "measure length")
  fix c :: char and cs :: string
  show "(dropWhile is_space_char cs, c # cs) \<in> measure length"
    using length_dropWhile_le [of is_space_char cs] by simp
qed simp_all

definition normalizeAnswer :: "string \<Rightarrow> string" where
  "normalizeAnswer answer =
     (let normalized = strip_tags answer
      in collapse_spaces (trim (strip_punctuation
           (remove_stopwords False (toLowerCase normalized)))))"

section \<open>JavaScript numbers\<close>

text \<open>
  A JavaScript number is an IEEE 754 double. The model keeps a finite double as the
  rational number it denotes (the two zeros are one value) and rounds the exact result of
  every operation to the nearest double, a tie going to the even significand, as the
  language prescribes.
\<close>

datatype number = Finite rat | PosInfinity | NegInfinity | NaN

definition floor_log2 :: "rat \<Rightarrow> int" where
  \<comment> \<open>for \<open>x > 0\<close>, the \<open>k\<close> with \<open>2 powi k \<le> x < 2 powi (k + 1)\<close>\<close>
  "floor_log2 x =
     (let (p, q) = quotient_of x; k = bitlen p - bitlen q
      in if 2 powi k \<le> x then k else k - 1)"

definition round_half_even :: "rat \<Rightarrow> int" where
  \<comment> \<open>the nearest integer, the even one of two equally near\<close>
  "round_half_even z =
     (let f = \<lfloor>z\<rfloor>; r = z - of_int f
      in if r < 1 / 2 then f else if 1 / 2 < r then f + 1 else if even f then f else f + 1)"

definition double_limit :: rat where
  \<comment> \<open>what rounds to this or beyond is infinite\<close>
  "double_limit = 2 ^ 1024"

definition round_to_double :: "rat \<Rightarrow> number" where
  \<comment> \<open>the double nearest to \<open>x\<close>: a significand \<open>m\<close> of at most 53 bits at the exponent
      \<open>e\<close>, which is \<open>- 1074\<close> for the subnormal numbers\<close>
  "round_to_double x =
     (if x = 0 then Finite 0
      else (let e = max (floor_log2 \<bar>x\<bar> - 52) (- 1074);
                m = round_half_even (\<bar>x\<bar> / 2 powi e);
                y = of_int m * 2 powi e
            in if double_limit \<le> y then (if 0 < x then PosInfinity else NegInfinity)
               else Finite (if 0 < x then y else - y)))"

fun num_div :: "number \<Rightarrow> number \<Rightarrow> number" where
  \<comment> \<open>\<open>x / y\<close>\<close>
  "num_div (Finite x) (Finite y) =
     (if y = 0 then (if x = 0 then NaN else if 0 < x then PosInfinity else NegInfinity)
      else round_to_double (x / y))"
| "num_div NaN y = NaN"
| "num_div x NaN = NaN"
| "num_div (Finite x) y = Finite 0"
| "num_div PosInfinity (Finite y) = (if y < 0 then NegInfinity else PosInfinity)"
| "num_div NegInfinity (Finite y) = (if y < 0 then PosInfinity else NegInfinity)"
| "num_div x y = NaN"

fun num_sub :: "number \<Rightarrow> number \<Rightarrow> number" where
  \<comment> \<open>\<open>x - y\<close>\<close>
  "num_sub (Finite x) (Finite y) = round_to_double (x - y)"
| "num_sub NaN y = NaN"
| "num_sub x NaN = NaN"
| "num_sub (Finite x) PosInfinity = NegInfinity"
| "num_sub (Finite x) NegInfinity = PosInfinity"
| "num_sub PosInfinity PosInfinity = NaN"
| "num_sub NegInfinity NegInfinity = NaN"
| "num_sub PosInfinity y = PosInfinity"
| "num_sub NegInfinity y = NegInfinity"

fun num_ge :: "number \<Rightarrow> number \<Rightarrow> bool" where
  \<comment> \<open>\<open>x >= y\<close>\<close>
  "num_ge (Finite x) (Finite y) = (y \<le> x)"
| "num_ge NaN y = False"
| "num_ge x NaN = False"
| "num_ge PosInfinity y = True"
| "num_ge x NegInfinity = True"
| "num_ge x y = False"

section \<open>levenshteinDistance and calculateSimilarity\<close>

type_synonym matrix = "nat list list"

definition put :: "'a list \<Rightarrow> nat \<Rightarrow> 'a \<Rightarrow> 'a list" where
  \<comment> \<open>the array assignment \<open>xs[j] = v\<close>: an index below the length is overwritten, the
      index equal to the length extends the array by one (the source writes nowhere else)\<close>
  "put xs j v = (if j < length xs then xs[j := v] else xs @ [v])"

definition init_rows :: "string \<Rightarrow> matrix" where
  \<comment> \<open>\<open>for (let i = 0; i <= b.length; i++) matrix[i] = [i]\<close>\<close>
  "init_rows b = fold (\<lambda>i m. put m i [i]) [0..<Suc (length b)] []"

definition init_first_row :: "string \<Rightarrow> matrix \<Rightarrow> matrix" where
  \<comment> \<open>\<open>for (let j = 0; j <= a.length; j++) matrix[0][j] = j\<close>\<close>
  "init_first_row a m0 = fold (\<lambda>j m. m[0 := put (m ! 0) j j]) [0..<Suc (length a)] m0"

definition fill_cell :: "string \<Rightarrow> string \<Rightarrow> nat \<Rightarrow> nat \<Rightarrow> matrix \<Rightarrow> matrix" where
  \<comment> \<open>the body of the inner loop\<close>
  "fill_cell a b i j m =
     (if b ! (i - 1) = a ! (j - 1)
      then m[i := put (m ! i) j (m ! (i - 1) ! (j - 1))]
      else m[i := put (m ! i) j
                (min (m ! (i - 1) ! (j - 1) + 1)
                     (min (m ! i ! (j - 1) + 1) (m ! (i - 1) ! j + 1)))])"

definition fill_row :: "string \<Rightarrow> string \<Rightarrow> nat \<Rightarrow> matrix \<Rightarrow> matrix" where
  \<comment> \<open>\<open>for (let j = 1; j <= a.length; j++) ...\<close>\<close>
  "fill_row a b i m0 = fold (\<lambda>j m. fill_cell a b i j m) [1..<Suc (length a)] m0"

definition fill_matrix :: "string \<Rightarrow> string \<Rightarrow> matrix \<Rightarrow> matrix" where
  \<comment> \<open>\<open>for (let i = 1; i <= b.length; i++) ...\<close>\<close>
  "fill_matrix a b m0 = fold (\<lambda>i m. fill_row a b i m) [1..<Suc (length b)] m0"

definition levenshteinDistance :: "string \<Rightarrow> string \<Rightarrow> nat" where
  "levenshteinDistance a b =
     (if length a = 0 then length b
      else if length b = 0 then length a
      else fill_matrix a b (init_first_row a (init_rows b)) ! length b ! length a)"

definition calculateSimilarity :: "string \<Rightarrow> string \<Rightarrow> number" where
  \<comment> \<open>the distance and the lengths are integers below \<open>2 ^ 53\<close>, doubles as they are\<close>
  "calculateSimilarity a b =
     (if a = b then Finite 1
      else if length a = 0 \<or> length b = 0 then Finite 0
      else (let distance = levenshteinDistance a b
            in num_sub (Finite 1)
                 (num_div (Finite (of_nat distance))
                    (Finite (of_nat (max (length a) (length b)))))))"

section \<open>extractAcceptableAnswers\<close>

function find_all :: "(string \<Rightarrow> nat option) \<Rightarrow> string \<Rightarrow> string list" where
  \<comment> \<open>\<open>text.match(re) || []\<close> for a regular expression with flag \<open>g\<close>: every match, left
      to right, the search resuming after each match (one character further after an empty
      one); \<open>m\<close> gives the length of the match of \<open>re\<close> at the start of a text\<close>
  "find_all m [] = (case m [] of Some n \<Rightarrow> [[]] | None \<Rightarrow> [])"
| "find_all m (c # cs) =
     (case m (c # cs) of
        Some n \<Rightarrow> take n (c # cs) # find_all m (drop (max 1 n) (c # cs))
      | None \<Rightarrow> find_all m cs)"
  by pat_completeness auto
termination
  by (relation "measure (\<lambda>(m, s). length s)") (auto simp: max_def)

definition match_strong :: "string \<Rightarrow> nat option" where
  \<comment> \<open>\<open>/<strong>([^<]+)<\/strong>/i\<close> at the start of the text\<close>
  "match_strong s =
     (if ci_prefix ''<strong>'' s
      then (let body = takeWhile (\<lambda>x. x \<noteq> CHR ''<'') (drop 8 s)
            in if body \<noteq> [] \<and> ci_prefix ''</strong>'' (drop (8 + length body) s)
               then Some (8 + length body + 9) else None)
      else None)"

fun remove_strong_tags :: "string \<Rightarrow> string" where
  \<comment> \<open>\<open>.replace(/<\/?strong>/gi, '')\<close>\<close>
  "remove_strong_tags [] = []"
| "remove_strong_tags (c # cs) =
     (if ci_prefix ''</strong>'' (c # cs) then remove_strong_tags (drop 8 cs)
      else if ci_prefix ''<strong>'' (c # cs) then remove_strong_tags (drop 7 cs)
      else c # remove_strong_tags cs)"

definition match_accept :: "string \<Rightarrow> nat option" where
  \<comment> \<open>\<open>/accept\s+([^;)]+)/i\<close> at the start of the text. \<open>\s+\<close> takes the whole run of
      spaces; when nothing but \<open>;\<close>, \<open>)\<close> or the end follows, it gives its last space back
      to the group\<close>
  "match_accept s =
     (if ci_prefix ''accept'' s
      then (let spaces = takeWhile is_space_char (drop 6 s);
                body = takeWhile (\<lambda>x. x \<noteq> CHR '';'' \<and> x \<noteq> CHR '')'')
                         (drop (6 + length spaces) s)
            in if spaces = [] then None
               else if body \<noteq> [] then Some (6 + length spaces + length body)
               else if 2 \<le> length spaces then Some (6 + length spaces)
               else None)
      else None)"

definition remove_accept_prefix :: "string \<Rightarrow> string" where
  \<comment> \<open>\<open>.replace(/^accept\s+/i, '')\<close>\<close>
  "remove_accept_prefix s =
     (if ci_prefix ''accept'' s \<and> takeWhile is_space_char (drop 6 s) \<noteq> []
      then dropWhile is_space_char (drop 6 s) else s)"

definition push_candidate :: "string list \<Rightarrow> string \<Rightarrow> string list" where
  \<comment> \<open>\<open>if (content && content.length > 1) answers.push(content)\<close>\<close>
  "push_candidate answers content =
     (if content \<noteq> [] \<and> 1 < length content then answers @ [content] else answers)"

definition strong_content :: "string \<Rightarrow> string" where
  "strong_content match = trim (remove_strong_tags match)"

definition accept_content :: "string \<Rightarrow> string" where
  "accept_content match =
     (let content = trim (remove_accept_prefix match) in trim (strip_tags content))"

definition primary_clean :: "string \<Rightarrow> string" where
  \<comment> \<open>\<open>text.split(/\(/)[0].replace(/<[^>]*>/g, '').trim()\<close>\<close>
  "primary_clean text =
     (let primaryPart = takeWhile (\<lambda>x. x \<noteq> CHR ''('') text in trim (strip_tags primaryPart))"

definition pushed_answers :: "string \<Rightarrow> string list" where
  \<comment> \<open>the array \<open>answers\<close> when the function reaches its \<open>return\<close>\<close>
  "pushed_answers text =
     (let answers = [];
          strongMatches = find_all match_strong text;
          answers = fold (\<lambda>match acc. push_candidate acc (strong_content match))
                      strongMatches answers;
          acceptMatches = find_all match_accept text;
          answers = fold (\<lambda>match acc. push_candidate acc (accept_content match))
                      acceptMatches answers
      in push_candidate answers (primary_clean text))"

definition set_spread :: "string list \<Rightarrow> string list" where
  \<comment> \<open>\<open>[...new Set(answers)]\<close>: a set keeps its elements in the order of their first
      insertion\<close>
  "set_spread answers = fold (\<lambda>x acc. if x \<in> set acc then acc else acc @ [x]) answers []"

definition extractAcceptableAnswers :: "string \<Rightarrow> string list" where
  "extractAcceptableAnswers answerField = set_spread (pushed_answers answerField)"

section \<open>checkAnswer\<close>

fun match_candidates :: "string \<Rightarrow> number \<Rightarrow> string list \<Rightarrow> bool" where
  \<comment> \<open>the loop \<open>for (const acceptable of acceptableAnswers)\<close> with its three \<open>break\<close>s:
      the value of \<open>isCorrect\<close> after the loop\<close>
  "match_candidates normalizedUser tolerance [] = False"
| "match_candidates normalizedUser tolerance (acceptable # rest) =
     (let normalizedAcceptable = normalizeAnswer acceptable
      in if normalizedUser = normalizedAcceptable then True
         else if str_includes normalizedAcceptable normalizedUser \<or>
                 str_includes normalizedUser normalizedAcceptable then True
         else if num_ge (calculateSimilarity normalizedUser normalizedAcceptable) tolerance
         then True
         else match_candidates normalizedUser tolerance rest)"

definition stored_tolerance :: "int \<Rightarrow> number" where
  \<comment> \<open>\<open>parseInt(...) / 100\<close>, for a stored text that is an integer: \<open>parseInt\<close> gives the
      double nearest to it\<close>
  "stored_tolerance tolerancePercent =
     num_div (round_to_double (of_int tolerancePercent)) (Finite 100)"

definition isCorrect :: "string \<Rightarrow> string \<Rightarrow> int \<Rightarrow> bool" where
  \<comment> \<open>the value of the variable \<open>isCorrect\<close> that \<open>checkAnswer\<close> records, from the trimmed
      user answer, the answer field of the question and the stored tolerance percentage\<close>
  "isCorrect userAnswer correctAnswer tolerancePercent =
     (let tolerance = stored_tolerance tolerancePercent;
          acceptableAnswers = extractAcceptableAnswers correctAnswer;
          normalizedUser = normalizeAnswer userAnswer;
          found = match_candidates normalizedUser tolerance acceptableAnswers
      in if \<not> found
         then (let normalizedCorrect = normalizeAnswer correctAnswer;
                   found' = (str_includes normalizedCorrect normalizedUser \<or>
                             str_includes normalizedUser normalizedCorrect \<or>
                             normalizedUser = normalizedCorrect);
                   similarity = calculateSimilarity normalizedUser normalizedCorrect
               in if num_ge similarity tolerance then True else found')
         else found)"

datatype outcome = PleaseEnterAnAnswer | Judged bool

definition checkAnswer :: "string \<Rightarrow> string \<Rightarrow> int \<Rightarrow> outcome" where
  \<comment> \<open>the text in the answer box, the answer field of the current question, the stored
      tolerance percentage\<close>
  "checkAnswer inputValue correctAnswer tolerancePercent =
     (let userAnswer = trim inputValue
      in if userAnswer = [] then PleaseEnterAnAnswer
         else Judged (isCorrect userAnswer correctAnswer tolerancePercent))"

definition three_checks :: "string \<Rightarrow> string \<Rightarrow> int \<Rightarrow> bool" where
  \<comment> \<open>the specification's three checks of a normalized user answer against a normalized
      candidate: (a) equality, (b) one a substring of the other, (c) similarity at least
      the tolerance over 100, both of them the numbers that JavaScript computes\<close>
  "three_checks normUser normCandidate tolerancePercent =
     (normUser = normCandidate \<or>
      (str_includes normCandidate normUser \<or> str_includes normUser normCandidate) \<or>
      num_ge (calculateSimilarity normUser normCandidate)
        (num_div (round_to_double (of_int tolerancePercent)) (Finite 100)))"

section \<open>streamText\<close>

definition cursor :: string where
  "cursor = ''<span class=\"cursor\"></span>''"

fun removeCursor :: "string \<Rightarrow> string" where
  \<comment> \<open>\<open>html.replace(/<span class="cursor"><\/span>/g, '')\<close>\<close>
  "removeCursor [] = []"
| "removeCursor (c # cs) =
     (if prefix cursor (c # cs) then removeCursor (drop (length cursor - 1) cs)
      else c # removeCursor cs)"

definition indexOf :: "string \<Rightarrow> char \<Rightarrow> nat \<Rightarrow> nat option" where
  \<comment> \<open>\<open>text.indexOf(c, from)\<close>, with \<open>None\<close> for \<open>-1\<close>\<close>
  "indexOf text c from =
     (if c \<in> set (drop from text)
      then Some (from + length (takeWhile (\<lambda>x. x \<noteq> c) (drop from text))) else None)"

definition substring :: "string \<Rightarrow> nat \<Rightarrow> nat \<Rightarrow> string" where
  \<comment> \<open>\<open>text.substring(i, j)\<close> for \<open>i \<le> j\<close>\<close>
  "substring text i j = take (j - i) (drop i text)"

record stream_state =
  displayText :: string
  currentCharIndex :: nat
  lastCharTime :: int
  isPaused :: bool
  streamingInterval :: bool  \<comment> \<open>the repeating timer is installed\<close>
  innerHTML :: string  \<comment> \<open>the content last written to the target element\<close>
  callbacks :: nat  \<comment> \<open>how often the completion callback of the current reveal has run\<close>

definition streamText :: "int \<Rightarrow> stream_state \<Rightarrow> stream_state" where
  \<comment> \<open>the state when \<open>streamText\<close> returns, called at time \<open>now\<close>: a timer of an earlier
      reveal is cleared, the cursor removed, a new timer installed\<close>
  "streamText now st =
     st\<lparr>innerHTML := removeCursor (innerHTML st), displayText := [], currentCharIndex := 0,
        lastCharTime := now, streamingInterval := True, callbacks := 0\<rparr>"

definition emit :: "string \<Rightarrow> stream_state \<Rightarrow> stream_state" where
  \<comment> \<open>the part of \<open>addNextChar\<close> after the test for completion\<close>
  "emit text st =
     (let i = currentCharIndex st;
          char = text ! i;
          st' = (if char = CHR ''<''
                 then (case indexOf text CHR ''>'' i of
                         Some tagEnd \<Rightarrow>
                           st\<lparr>displayText := displayText st @ substring text i (tagEnd + 1),
                              currentCharIndex := tagEnd + 1\<rparr>
                       | None \<Rightarrow>
                           st\<lparr>displayText := displayText st @ [char],
                              currentCharIndex := i + 1\<rparr>)
                 else st\<lparr>displayText := displayText st @ [char], currentCharIndex := i + 1\<rparr>)
      in st'\<lparr>innerHTML := displayText st' @ cursor\<rparr>)"

definition addNextChar :: "string \<Rightarrow> int \<times> int \<Rightarrow> stream_state \<Rightarrow> stream_state" where
  \<comment> \<open>one call of \<open>addNextChar\<close> with the value of the speed slider and \<open>Date.now()\<close>\<close>
  "addNextChar text input st =
     (let (speed, now) = input
      in if isPaused st then st
         else if now - lastCharTime st < 110 - speed then st
         else (let st1 = st\<lparr>lastCharTime := now\<rparr>
               in if length text \<le> currentCharIndex st1
                  then st1\<lparr>streamingInterval := False, innerHTML := displayText st1,
                          callbacks := callbacks st1 + 1\<rparr>
                  else emit text st1))"

definition tick :: "string \<Rightarrow> int \<times> int \<Rightarrow> stream_state \<Rightarrow> stream_state" where
  \<comment> \<open>the timer fires: \<open>addNextChar\<close> runs as long as the timer is installed\<close>
  "tick text input st = (if streamingInterval st then addNextChar text input st else st)"

definition run :: "string \<Rightarrow> (int \<times> int) list \<Rightarrow> stream_state \<Rightarrow> stream_state" where
  \<comment> \<open>the timer fires once for each input, in order\<close>
  "run text inputs st = fold (tick text) inputs st"

section \<open>Candidates by kind\<close>

definition long_enough :: "string \<Rightarrow> bool" where
  \<comment> \<open>the guard of every \<open>push\<close>\<close>
  "long_enough content = (content \<noteq> [] \<and> 1 < length content)"

definition strong_candidates :: "string \<Rightarrow> string list" where
  \<comment> \<open>the contents of the \<open><strong>\<close> spans that pass the guard\<close>
  "strong_candidates text = filter long_enough (map strong_content (find_all match_strong text))"

definition accept_candidates :: "string \<Rightarrow> string list" where
  \<comment> \<open>the contents of the "accept" clauses that pass the guard\<close>
  "accept_candidates text = filter long_enough (map accept_content (find_all match_accept text))"

definition primary_candidates :: "string \<Rightarrow> string list" where
  \<comment> \<open>the primary answer, the text before the first parenthesis, when it passes the guard\<close>
  "primary_candidates text = filter long_enough [primary_clean text]"

definition first_seen :: "string list \<Rightarrow> string \<Rightarrow> nat" where
  \<comment> \<open>the position at which an entry is pushed first\<close>
  "first_seen xs x = length (takeWhile (\<lambda>y. y \<noteq> x) xs)"

section \<open>Runs of the reveal\<close>

definition inside_tag :: "string \<Rightarrow> nat \<Rightarrow> bool" where
  \<comment> \<open>the position \<open>i\<close> lies strictly inside a tag: after a \<open><\<close> at some \<open>p < i\<close>, with no
      \<open>>\<close> from \<open>p\<close> up to \<open>i\<close>, and before the \<open>>\<close> that closes it\<close>
  "inside_tag text i =
     (\<exists>p \<in> set [0..<i]. text ! p = CHR ''<'' \<and>
        CHR ''>'' \<notin> set (take (i - p) (drop p text)) \<and> CHR ''>'' \<in> set (drop i text))"

definition due :: "int \<times> int \<Rightarrow> stream_state \<Rightarrow> bool" where
  \<comment> \<open>enough time has passed since the last character: the call of \<open>addNextChar\<close> is not
      turned away by its test of the time\<close>
  "due input st = (case input of (speed, now) \<Rightarrow> 110 - speed \<le> now - lastCharTime st)"

fun due_ticks :: "string \<Rightarrow> (int \<times> int) list \<Rightarrow> stream_state \<Rightarrow> nat" where
  \<comment> \<open>the number of those calls in a run\<close>
  "due_ticks text [] st = 0"
| "due_ticks text (input # inputs) st =
     (if due input st then 1 else 0) + due_ticks text inputs (tick text input st)"

fun timer_ticks :: "int \<Rightarrow> nat \<Rightarrow> (int \<times> int) list" where
  \<comment> \<open>the timer of \<open>setInterval(addNextChar, 10)\<close> on time, the speed slider at 100\<close>
  "timer_ticks t 0 = []"
| "timer_ticks t (Suc n) = (100, t + 10) # timer_ticks (t + 10) n"

definition cursor_ok :: "string \<Rightarrow> stream_state \<Rightarrow> bool" where
  \<comment> \<open>the invariant of the cursor\<close>
  "cursor_ok text st = (currentCharIndex st \<le> length text \<and> \<not> inside_tag text (currentCharIndex st))"

definition revealing :: "string \<Rightarrow> stream_state \<Rightarrow> bool" where
  \<comment> \<open>the invariant of a reveal that has not completed\<close>
  "revealing text st =
     (streamingInterval st \<and> \<not> isPaused st \<and> callbacks st = 0 \<and>
      currentCharIndex st \<le> length text \<and>
      displayText st = take (currentCharIndex st) text)"

section \<open>The Levenshtein distance\<close>

fun edit_distance :: "string \<Rightarrow> string \<Rightarrow> nat" where
  \<comment> \<open>the Levenshtein distance of the specification, by its recurrence: the cheapest of a
      substitution (free when the characters agree), a deletion and an insertion, each
      costing one\<close>
  "edit_distance [] ys = length ys"
| "edit_distance (x # xs) [] = Suc (length xs)"
| "edit_distance (x # xs) (y # ys) =
     min (edit_distance xs ys + (if x = y then 0 else 1))
         (min (edit_distance xs (y # ys) + 1) (edit_distance (x # xs) ys + 1))"

definition dist_table :: "string \<Rightarrow> string \<Rightarrow> nat \<Rightarrow> nat \<Rightarrow> nat" where
  \<comment> \<open>the distance between the first \<open>i\<close> characters of \<open>b\<close> and the first \<open>j\<close> of \<open>a\<close>, which
      the cell \<open>matrix[i][j]\<close> is to hold\<close>
  "dist_table a b i j = edit_distance (rev (take i b)) (rev (take j a))"

definition rows_filled :: "string \<Rightarrow> string \<Rightarrow> nat \<Rightarrow> matrix \<Rightarrow> bool" where
  \<comment> \<open>the invariant of the outer loop: rows \<open>0\<close> to \<open>r\<close> are complete, the later rows
      hold their first cell\<close>
  "rows_filled a b r m =
     (length m = Suc (length b) \<and>
      (\<forall>i \<le> r. m ! i = map (dist_table a b i) [0..<Suc (length a)]) \<and>
      (\<forall>i. r < i \<and> i \<le> length b \<longrightarrow> m ! i = [i]))"

section \<open>Words of a text\<close>

fun words_acc :: "string \<Rightarrow> string \<Rightarrow> string list" where
  \<comment> \<open>the words of a text, the first continuing the word \<open>w\<close> read so far\<close>
  "words_acc w [] = (if w = [] then [] else [w])"
| "words_acc w (c # cs) =
     (if is_word_char c then words_acc (w @ [c]) cs
      else (if w = [] then [] else [w]) @ words_acc [] cs)"

definition words_of :: "string \<Rightarrow> string list" where
  \<comment> \<open>the words of a text: its maximal runs of word characters, in order\<close>
  "words_of s = words_acc [] s"

definition boundary_ahead :: "string \<Rightarrow> bool" where
  \<comment> \<open>no word character follows\<close>
  "boundary_ahead r = (r = [] \<or> \<not> is_word_char (hd r))"

definition trimmed :: "string \<Rightarrow> bool" where
  \<comment> \<open>no space at either end\<close>
  "trimmed y = (y = [] \<or> (\<not> is_space_char (hd y) \<and> \<not> is_space_char (last y)))"

definition kept_lower :: "string \<Rightarrow> bool" where
  \<comment> \<open>only characters that \<open>normalizeAnswer\<close> keeps, none that \<open>toLowerCase\<close> changes\<close>
  "kept_lower z =
     (\<forall>c \<in> set z. (is_word_char c \<or> is_space_char c) \<and> lower_char c = c)"

section \<open>Properties of the number model\<close>

text \<open>
  The rounding agrees with what JavaScript prints: \<open>20 / 100\<close> is the double of \<open>0.2\<close>,
  \<open>1 - 4 / 5\<close> is \<open>0.19999999999999996\<close>, \<open>1 - 3 / 10\<close> equals \<open>7 / 10\<close>, \<open>1 - 9 / 10\<close>
  differs from \<open>1 / 10\<close>, and above \<open>2 ^ 53\<close> only every second integer is a double.
\<close>

lemma double_limit_code [code]:
  "double_limit = 179769313486231590772930519078902473361797697894230657273430081157732675805500963132708477322407536021120113879871393357658789768814416622492847430639474124377767893424865485276302219601246094119453082952085005768838150682342462881473913110540827237163350510684586298239947245938479716304835356329624224137216"
  by (simp add: double_limit_def)

lemma double_examples:
  "num_div (Finite 20) (Finite 100) = Finite (3602879701896397 / 2 ^ 54)"
  "num_sub (Finite 1) (num_div (Finite 4) (Finite 5)) = Finite (900719925474099 / 2 ^ 52)"
  "num_sub (Finite 1) (num_div (Finite 3) (Finite 10)) = num_div (Finite 7) (Finite 10)"
  "num_sub (Finite 1) (num_div (Finite 9) (Finite 10)) \<noteq> num_div (Finite 1) (Finite 10)"
  "round_to_double (2 ^ 53 + 1) = Finite (2 ^ 53)"
  "round_to_double (2 ^ 53 + 3) = Finite (2 ^ 53 + 4)"
  by code_simp+

lemma round_to_double_0 [simp]: "round_to_double 0 = Finite 0"
  by (simp add: round_to_double_def)

lemma round_to_double_1 [simp]: "round_to_double 1 = Finite 1"
  by code_simp

lemma round_half_even_error: "\<bar>of_int (round_half_even z) - z\<bar> \<le> 1 / 2"
proof -
  have "of_int \<lfloor>z\<rfloor> \<le> z" "z < of_int \<lfloor>z\<rfloor> + 1" by linarith+
  then show ?thesis by (auto simp: round_half_even_def Let_def)
qed

lemma round_half_even_le: "z \<le> of_int n \<Longrightarrow> round_half_even z \<le> n"
proof -
  assume z: "z \<le> of_int n"
  then have f: "\<lfloor>z\<rfloor> \<le> n" by (simp add: floor_le_iff)
  show ?thesis
  proof (cases "\<lfloor>z\<rfloor> = n")
    case True
    with z have "z - of_int \<lfloor>z\<rfloor> \<le> 0" by simp
    then show ?thesis using True by (simp add: round_half_even_def Let_def)
  next
    case False
    with f have "\<lfloor>z\<rfloor> + 1 \<le> n" by simp
    then show ?thesis by (simp add: round_half_even_def Let_def)
  qed
qed

lemma round_half_even_nonneg: "0 \<le> z \<Longrightarrow> 0 \<le> round_half_even z"
proof -
  assume "0 \<le> z"
  then have "0 \<le> \<lfloor>z\<rfloor>" by simp
  then show ?thesis by (simp add: round_half_even_def Let_def)
qed

lemma floor_log2_le_0:
  assumes "0 < x" and "x \<le> 1"
  shows "floor_log2 x \<le> 0"
proof -
  obtain p q where pq: "quotient_of x = (p, q)" by (cases "quotient_of x")
  then have q: "0 < q" and x: "x = of_int p / of_int q"
    by (simp_all add: quotient_of_denom_pos quotient_of_div)
  from assms x q have "p \<le> q" by (simp add: divide_le_eq_1)
  then have "bitlen p \<le> bitlen q"
    by (simp add: bitlen_def floorlog_mono nat_mono)
  then show ?thesis by (simp add: floor_log2_def pq Let_def)
qed

lemma round_to_double_unit:
  assumes "0 \<le> x" and "x \<le> 1"
  shows "\<exists>y. round_to_double x = Finite y \<and> 0 \<le> y \<and> y \<le> 1 \<and> \<bar>y - x\<bar> \<le> 1 / 2 ^ 53"
proof (cases "x = 0")
  case True
  then show ?thesis by simp
next
  case False
  with assms have pos: "0 < x" by simp
  define e where "e = max (floor_log2 \<bar>x\<bar> - 52) (- 1074)"
  define n where "n = nat (- e)"
  define m where "m = round_half_even (\<bar>x\<bar> / 2 powi e)"
  from pos assms(2) have "floor_log2 \<bar>x\<bar> \<le> 0" by (simp add: floor_log2_le_0)
  then have e: "e \<le> - 52" by (simp add: e_def)
  then have n: "52 \<le> n" and en: "e = - int n" by (simp_all add: n_def)
  have pw: "(2::rat) powi e = 1 / 2 ^ n"
    using e by (simp add: power_int_def n_def field_simps)
  from pos have z: "\<bar>x\<bar> / 2 powi e = x * 2 ^ n" by (simp add: pw)
  have "x * 2 ^ n \<le> of_int (2 ^ n)" using assms(2) by simp
  then have m_le: "m \<le> 2 ^ n" unfolding m_def z by (rule round_half_even_le)
  have m_ge: "0 \<le> m" unfolding m_def z using pos by (intro round_half_even_nonneg) simp
  define y where "y = of_int m * (2::rat) powi e"
  have y: "y = of_int m / 2 ^ n" by (simp add: y_def pw)
  from m_le have "(of_int m :: rat) \<le> 2 ^ n" by (metis of_int_le_iff of_int_numeral of_int_power)
  then have y1: "y \<le> 1" by (simp add: y divide_le_eq_1)
  from m_ge have y0: "0 \<le> y" by (simp add: y)
  have "(1::rat) < double_limit" by (simp add: double_limit_def)
  with y1 have fin: "\<not> double_limit \<le> y" by simp
  have "\<bar>of_int m - x * 2 ^ n\<bar> \<le> 1 / 2"
    unfolding m_def z by (rule round_half_even_error)
  moreover have "y - x = (of_int m - x * 2 ^ n) / 2 ^ n"
    by (simp add: y diff_divide_distrib)
  then have "\<bar>y - x\<bar> = \<bar>of_int m - x * 2 ^ n\<bar> / 2 ^ n"
    by (simp only: abs_divide) simp
  ultimately have "\<bar>y - x\<bar> \<le> 1 / 2 / 2 ^ n"
    by (simp only: divide_right_mono zero_le_power zero_le_numeral)
  also have "\<dots> = 1 / 2 ^ Suc n" by simp
  also have "\<dots> \<le> 1 / 2 ^ 53"
    using n by (intro divide_left_mono power_increasing) simp_all
  finally have err: "\<bar>y - x\<bar> \<le> 1 / 2 ^ 53" .
  have "round_to_double x = Finite y"
    using False pos fin
    by (simp add: round_to_double_def Let_def y_def m_def e_def)
  with y0 y1 err show ?thesis by blast
qed

lemma bitlen_bounds_rat:
  assumes "0 < p"
  shows "2 powi (bitlen p - 1) \<le> (of_int p :: rat) \<and> (of_int p :: rat) < 2 powi bitlen p"
proof -
  from assms have b: "1 \<le> bitlen p" by (simp add: bitlen_alt_def)
  from bitlen_bounds [OF assms] have "2 ^ nat (bitlen p - 1) \<le> p" "p < 2 ^ nat (bitlen p)"
    by simp_all
  then have "(of_int (2 ^ nat (bitlen p - 1)) :: rat) \<le> of_int p"
    "(of_int p :: rat) < of_int (2 ^ nat (bitlen p))"
    by (simp_all only: of_int_le_iff of_int_less_iff)
  with b show ?thesis by (simp add: power_int_def)
qed

lemma floor_log2_bounds:
  assumes "0 < x"
  shows "2 powi floor_log2 x \<le> x \<and> x < 2 powi (floor_log2 x + 1)"
proof -
  obtain p q where pq: "quotient_of x = (p, q)" by (cases "quotient_of x")
  then have q: "0 < q" and x: "x = of_int p / of_int q"
    by (simp_all add: quotient_of_denom_pos quotient_of_div)
  with assms have p: "0 < p" by (simp add: zero_less_divide_iff)
  define k where "k = bitlen p - bitlen q"
  note P = bitlen_bounds_rat [OF p] and Q = bitlen_bounds_rat [OF q]
  have two: "(0::rat) < 2 powi i" for i by simp
  have "2 powi (k - 1) = (2::rat) powi (bitlen p - 1) / 2 powi bitlen q"
    by (simp add: k_def power_int_diff [symmetric] algebra_simps)
  also have "\<dots> < of_int p / of_int q"
    using P Q q two by (intro frac_less2) simp_all
  finally have lo: "2 powi (k - 1) < x" by (simp only: x)
  have "x < (2::rat) powi bitlen p / 2 powi (bitlen q - 1)"
    unfolding x using P Q p two by (intro frac_less) simp_all
  also have "\<dots> = 2 powi (k + 1)"
    by (simp add: k_def power_int_diff [symmetric] algebra_simps)
  finally have hi: "x < 2 powi (k + 1)" .
  show ?thesis
  proof (cases "2 powi k \<le> x")
    case True
    with hi show ?thesis by (simp add: floor_log2_def pq Let_def k_def)
  next
    case False
    with lo show ?thesis by (simp add: floor_log2_def pq Let_def k_def)
  qed
qed

lemma round_to_double_nearest:
  assumes "x \<noteq> 0" and "round_to_double x = Finite y"
  shows "\<exists>m e. y = (if 0 < x then 1 else - 1) * of_int m * 2 powi e \<and>
           0 \<le> m \<and> m \<le> 2 ^ 53 \<and> - 1074 \<le> e \<and> \<bar>y - x\<bar> \<le> 2 powi e / 2"
proof -
  define e where "e = max (floor_log2 \<bar>x\<bar> - 52) (- 1074)"
  define z where "z = \<bar>x\<bar> / 2 powi e"
  define m where "m = round_half_even z"
  have two: "(0::rat) < 2 powi i" for i by simp
  from assms have y: "y = (if 0 < x then 1 else - 1) * of_int m * 2 powi e"
    by (auto simp: round_to_double_def Let_def m_def z_def e_def split: if_splits)
  from assms(1) have ax: "0 < \<bar>x\<bar>" by simp
  have "\<bar>x\<bar> < 2 powi (floor_log2 \<bar>x\<bar> + 1)" using floor_log2_bounds [OF ax] by simp
  also have "\<dots> \<le> 2 powi (e + 53)"
    by (intro power_int_increasing) (simp_all add: e_def)
  also have "\<dots> = 2 powi e * 2 ^ 53" by (simp add: power_int_add)
  finally have "z < 2 ^ 53" using two [of e] by (simp add: z_def pos_divide_less_eq mult.commute)
  then have "z \<le> of_int (2 ^ 53)" by simp
  then have m_le: "m \<le> 2 ^ 53" unfolding m_def by (rule round_half_even_le)
  have "0 \<le> z" using two [of e] by (simp add: z_def)
  then have m_ge: "0 \<le> m" unfolding m_def by (rule round_half_even_nonneg)
  have err: "\<bar>of_int m - z\<bar> \<le> 1 / 2" unfolding m_def by (rule round_half_even_error)
  have "\<bar>y - x\<bar> = \<bar>of_int m - z\<bar> * 2 powi e"
  proof -
    have "x = (if 0 < x then 1 else - 1) * z * 2 powi e"
      using two [of e] by (simp add: z_def)
    then have "y - x = (if 0 < x then 1 else - 1) * ((of_int m - z) * 2 powi e)"
      unfolding y by (simp add: algebra_simps)
    then have "\<bar>y - x\<bar> = \<bar>(of_int m - z) * 2 powi e\<bar>"
      by (simp add: abs_mult)
    then show ?thesis using two [of e] by (simp add: abs_mult)
  qed
  also have "\<dots> \<le> 1 / 2 * 2 powi e"
    using err two [of e] by (intro mult_right_mono) simp_all
  finally have "\<bar>y - x\<bar> \<le> 2 powi e / 2" by simp
  moreover have "- 1074 \<le> e" by (simp add: e_def)
  ultimately show ?thesis using y m_le m_ge by blast
qed

section \<open>Properties of the answer check\<close>

lemma str_includes_iff: "str_includes s t \<longleftrightarrow> (\<exists>p q. s = p @ t @ q)"
proof (induction s)
  case Nil
  then show ?case by auto
next
  case (Cons c cs)
  show ?case
  proof
    assume "str_includes (c # cs) t"
    then consider "prefix t (c # cs)" | "str_includes cs t" by auto
    then show "\<exists>p q. c # cs = p @ t @ q"
    proof cases
      case 1
      then obtain q where "c # cs = t @ q" by (auto simp: prefix_def)
      then have "c # cs = [] @ t @ q" by simp
      then show ?thesis by blast
    next
      case 2
      with Cons.IH obtain p q where "cs = p @ t @ q" by blast
      then have "c # cs = (c # p) @ t @ q" by simp
      then show ?thesis by blast
    qed
  next
    assume "\<exists>p q. c # cs = p @ t @ q"
    then obtain p q where pq: "c # cs = p @ t @ q" by blast
    show "str_includes (c # cs) t"
    proof (cases p)
      case Nil
      with pq have "prefix t (c # cs)" by (simp add: prefix_def)
      then show ?thesis by simp
    next
      case (Cons d p')
      with pq have "cs = p' @ t @ q" by simp
      with Cons.IH have "str_includes cs t" by blast
      then show ?thesis by simp
    qed
  qed
qed

lemma str_includes_Nil [simp]: "str_includes s []"
  by (induction s) auto

lemma match_candidates_iff:
  "match_candidates nu (stored_tolerance tol) cs \<longleftrightarrow>
     (\<exists>c \<in> set cs. three_checks nu (normalizeAnswer c) tol)"
  by (induction cs) (auto simp: three_checks_def stored_tolerance_def Let_def)

text \<open>
  C1. For every user answer, answer field and tolerance, the answer is judged correct if
  and only if some extracted candidate, normalized, passes one of the three checks
  (equality, substring in either direction, similarity at least the tolerance over 100),
  or no candidate does and the normalized whole answer field passes one of them. The
  similarity and the quotient of the tolerance are the doubles that the code computes.
\<close>

theorem isCorrect_iff:
  "isCorrect userAnswer rawAnswerField tol \<longleftrightarrow>
     (\<exists>c \<in> set (extractAcceptableAnswers rawAnswerField).
         three_checks (normalizeAnswer userAnswer) (normalizeAnswer c) tol) \<or>
     (\<not> (\<exists>c \<in> set (extractAcceptableAnswers rawAnswerField).
           three_checks (normalizeAnswer userAnswer) (normalizeAnswer c) tol) \<and>
      three_checks (normalizeAnswer userAnswer) (normalizeAnswer rawAnswerField) tol)"
  unfolding isCorrect_def Let_def match_candidates_iff
  by (auto simp: three_checks_def stored_tolerance_def)

theorem isCorrect_iff_witness:
  "isCorrect ''Arthur Wellesley''
     ''<strong>Duke of Wellington</strong> (accept Arthur Wellesley)'' 80 \<and>
   (\<exists>c \<in> set (extractAcceptableAnswers
                 ''<strong>Duke of Wellington</strong> (accept Arthur Wellesley)'').
       three_checks (normalizeAnswer ''Arthur Wellesley'') (normalizeAnswer c) 80)"
proof -
  have ex: "extractAcceptableAnswers
      ''<strong>Duke of Wellington</strong> (accept Arthur Wellesley)''
      = [''Duke of Wellington'', ''Arthur Wellesley'']"
    by code_simp
  have "three_checks (normalizeAnswer ''Arthur Wellesley'')
      (normalizeAnswer ''Arthur Wellesley'') 80"
    by (simp add: three_checks_def)
  with ex have "\<exists>c \<in> set (extractAcceptableAnswers
        ''<strong>Duke of Wellington</strong> (accept Arthur Wellesley)'').
      three_checks (normalizeAnswer ''Arthur Wellesley'') (normalizeAnswer c) 80"
    by simp
  with isCorrect_iff [of "''Arthur Wellesley''"
      "''<strong>Duke of Wellington</strong> (accept Arthur Wellesley)''" 80]
  show ?thesis by blast
qed

lemma wellington_candidates:
  "extractAcceptableAnswers ''<strong>Duke of Wellington</strong>'' = [''Duke of Wellington'']"
  by code_simp

lemma norm_wellingtun: "normalizeAnswer ''Wellingtun'' = ''wellingtun''"
  by code_simp

lemma norm_wellington_field:
  "normalizeAnswer ''<strong>Duke of Wellington</strong>'' = ''duke wellington''"
  by code_simp

lemma norm_wellington_candidate:
  "normalizeAnswer ''Duke of Wellington'' = ''duke wellington''"
  by code_simp

lemma lev_wellingtun: "levenshteinDistance ''wellingtun'' ''duke wellington'' = 6"
  by code_simp

lemma wellingtun_not_included:
  "\<not> str_includes ''duke wellington'' ''wellingtun'' \<and>
   \<not> str_includes ''wellingtun'' ''duke wellington''"
  by code_simp

lemma sim_wellingtun:
  "calculateSimilarity ''wellingtun'' ''duke wellington''
     = num_sub (Finite 1) (num_div (Finite 6) (Finite 15))"
  by (simp add: calculateSimilarity_def lev_wellingtun)

lemma wellingtun_below_tolerance:
  "\<not> num_ge (calculateSimilarity ''wellingtun'' ''duke wellington'') (stored_tolerance 80)"
  "\<not> num_ge (calculateSimilarity ''wellingtun'' ''duke wellington'') (stored_tolerance 99)"
  unfolding sim_wellingtun by code_simp+

lemma similarity_at_the_boundary:
  "calculateSimilarity ''abcde'' ''afghi'' = Finite (900719925474099 / 2 ^ 52)"
  "stored_tolerance 20 = Finite (3602879701896397 / 2 ^ 54)"
  "isCorrect ''abcde'' ''afghi'' 20 = False"
  "isCorrect ''abcde'' ''afghi'' 19 = True"
  by code_simp+

text \<open>
  C2. The specification's example: "Wellingtun" against the answer field
  \<open><strong>Duke of Wellington</strong>\<close> is accepted at tolerance 80 and rejected at
  tolerance 99. The code rejects it at both: the only candidate and the whole field
  normalize to "duke wellington" (15 characters, the stopword "of" removed), at distance 6
  from "wellingtun", a similarity of about 0.6.
\<close>

theorem wellingtun_counterexample:
  "\<not> (isCorrect ''Wellingtun'' ''<strong>Duke of Wellington</strong>'' 80 = True \<and>
      isCorrect ''Wellingtun'' ''<strong>Duke of Wellington</strong>'' 99 = False)"
  by (simp add: isCorrect_def wellington_candidates norm_wellingtun norm_wellington_field
        norm_wellington_candidate wellingtun_below_tolerance wellingtun_not_included)

text \<open>
  C2, as the code has it: the call returns false at tolerance 80 and false at
  tolerance 99.
\<close>

theorem wellingtun_rejected:
  "isCorrect ''Wellingtun'' ''<strong>Duke of Wellington</strong>'' 80 = False \<and>
   isCorrect ''Wellingtun'' ''<strong>Duke of Wellington</strong>'' 99 = False"
  by (simp add: isCorrect_def wellington_candidates norm_wellingtun norm_wellington_field
        norm_wellington_candidate wellingtun_below_tolerance wellingtun_not_included)

lemma match_candidates_empty_user: "match_candidates [] t cs \<longleftrightarrow> cs \<noteq> []"
  by (cases cs) (auto simp: Let_def)

text \<open>
  C10. A non-blank user answer whose normalization is the empty string is judged correct
  against every answer field and at every tolerance: the empty string is a substring of
  every normalized candidate, and of the normalized whole field when there is no
  candidate.
\<close>

theorem empty_normalization_judged_correct:
  assumes "trim inputValue \<noteq> []" and "normalizeAnswer (trim inputValue) = []"
  shows "checkAnswer inputValue correctAnswer tolerancePercent = Judged True"
  using assms
  by (simp add: checkAnswer_def isCorrect_def Let_def match_candidates_empty_user)

theorem empty_normalization_judged_correct_witness:
  "trim '' the of, '' \<noteq> [] \<and> normalizeAnswer (trim '' the of, '') = [] \<and>
   checkAnswer '' the of, '' ''<strong>Duke of Wellington</strong>'' 100 = Judged True"
proof -
  have a: "trim '' the of, '' \<noteq> []" by code_simp
  have b: "normalizeAnswer (trim '' the of, '') = []" by code_simp
  from a b empty_normalization_judged_correct [OF a b, of "''<strong>Duke of Wellington</strong>''" 100]
  show ?thesis by simp
qed

section \<open>Properties of extractAcceptableAnswers\<close>

lemma fold_push_candidate:
  "fold (\<lambda>match acc. push_candidate acc (g match)) ms acc = acc @ filter long_enough (map g ms)"
  by (induction ms arbitrary: acc) (auto simp: push_candidate_def long_enough_def)

lemma pushed_answers_eq:
  "pushed_answers text = strong_candidates text @ accept_candidates text @ primary_candidates text"
  by (simp add: pushed_answers_def Let_def fold_push_candidate strong_candidates_def
        accept_candidates_def primary_candidates_def)
     (simp add: push_candidate_def long_enough_def)

lemma set_spread_Nil: "set_spread [] = []"
  by (simp add: set_spread_def)

lemma set_spread_snoc:
  "set_spread (xs @ [x]) = set_spread xs @ (if x \<in> set (set_spread xs) then [] else [x])"
  by (simp add: set_spread_def)

lemma set_set_spread: "set (set_spread xs) = set xs"
  by (induction xs rule: rev_induct) (auto simp: set_spread_Nil set_spread_snoc)

lemma distinct_set_spread: "distinct (set_spread xs)"
  by (induction xs rule: rev_induct) (auto simp: set_spread_Nil set_spread_snoc)

lemma set_spread_append:
  "set_spread (xs @ ys) = set_spread xs @ filter (\<lambda>y. y \<notin> set xs) (set_spread ys)"
proof (induction ys rule: rev_induct)
  case Nil
  then show ?case by (simp add: set_spread_Nil)
next
  case (snoc y ys)
  have "set_spread (xs @ ys @ [y]) = set_spread ((xs @ ys) @ [y])" by simp
  also have "\<dots> = set_spread (xs @ ys) @ (if y \<in> set (xs @ ys) then [] else [y])"
    unfolding set_spread_snoc set_set_spread ..
  finally show ?case
    using snoc by (auto simp: set_spread_snoc set_set_spread)
qed

lemma set_spread_empty_iff: "set_spread xs = [] \<longleftrightarrow> xs = []"
  using set_set_spread [of xs] by (metis set_empty)

lemma first_seen_less: "x \<in> set xs \<Longrightarrow> first_seen xs x < length xs"
  unfolding first_seen_def
  by (induction xs) auto

lemma first_seen_append: "x \<in> set xs \<Longrightarrow> first_seen (xs @ ys) x = first_seen xs x"
  unfolding first_seen_def by (induction xs) auto

lemma first_seen_new: "x \<notin> set xs \<Longrightarrow> first_seen (xs @ [x]) x = length xs"
  unfolding first_seen_def by (induction xs) auto

lemma set_spread_first_seen:
  "sorted_wrt (<) (map (first_seen xs) (set_spread xs))"
proof (induction xs rule: rev_induct)
  case Nil
  then show ?case by (simp add: set_spread_Nil)
next
  case (snoc x xs)
  have same: "map (first_seen (xs @ [x])) (set_spread xs) = map (first_seen xs) (set_spread xs)"
    by (rule map_cong) (simp_all add: set_set_spread first_seen_append)
  show ?case
  proof (cases "x \<in> set xs")
    case True
    then have "set_spread (xs @ [x]) = set_spread xs"
      by (simp add: set_spread_snoc set_set_spread)
    with snoc show ?thesis by (simp only: same)
  next
    case False
    then have "set_spread (xs @ [x]) = set_spread xs @ [x]"
      by (simp add: set_spread_snoc set_set_spread)
    moreover have "first_seen xs y < first_seen (xs @ [x]) x" if "y \<in> set xs" for y
      using that False by (simp add: first_seen_new first_seen_less)
    ultimately show ?thesis
      using snoc by (simp add: sorted_wrt_append same set_set_spread)
  qed
qed

text \<open>
  C4. The specification guarantees a candidate unless the answer field is empty or all
  markup. The code pushes nothing shorter than two characters, and takes the primary
  answer from before the first parenthesis: the one-letter field "X" and the field
  "(Malcolm) X" are neither empty nor markup, and yield no candidate.
\<close>

theorem extract_empty_counterexample:
  "extractAcceptableAnswers ''X'' = [] \<and> ''X'' \<noteq> [] \<and> strip_tags ''X'' = ''X'' \<and>
   extractAcceptableAnswers ''(Malcolm) X'' = [] \<and>
   strip_tags ''(Malcolm) X'' = ''(Malcolm) X''"
  by code_simp

text \<open>
  C4, as the code has it: the result is empty exactly when no \<open><strong>\<close> span and no
  "accept" clause has a content of two characters or more, and the text before the first
  parenthesis, markup stripped and trimmed, has at most one character.
\<close>

theorem extract_empty_iff:
  "extractAcceptableAnswers answerField = [] \<longleftrightarrow>
     strong_candidates answerField = [] \<and> accept_candidates answerField = [] \<and>
     length (primary_clean answerField) \<le> 1"
  by (auto simp: extractAcceptableAnswers_def set_spread_empty_iff pushed_answers_eq
        primary_candidates_def long_enough_def)

text \<open>
  C5. The specification orders the candidates: primary answer, \<open><strong>\<close> spans, "accept"
  clauses. The code pushes the primary answer last: for
  \<open><strong>Duke</strong> of Wellington (accept Arthur Wellesley)\<close> the primary answer
  "Duke of Wellington" is the third entry, not the first.
\<close>

theorem extract_order_counterexample:
  "extractAcceptableAnswers ''<strong>Duke</strong> of Wellington (accept Arthur Wellesley)''
     = [''Duke'', ''Arthur Wellesley'', ''Duke of Wellington''] \<and>
   extractAcceptableAnswers ''<strong>Duke</strong> of Wellington (accept Arthur Wellesley)''
     \<noteq> set_spread
         (primary_candidates ''<strong>Duke</strong> of Wellington (accept Arthur Wellesley)'' @
          strong_candidates ''<strong>Duke</strong> of Wellington (accept Arthur Wellesley)'' @
          accept_candidates ''<strong>Duke</strong> of Wellington (accept Arthur Wellesley)'')"
  by code_simp

text \<open>
  C5, as the code has it: first the \<open><strong>\<close> spans, then the "accept" clauses that
  are no span, then the primary answer unless it is a span or a clause; each once.
\<close>

theorem extract_order:
  "extractAcceptableAnswers answerField =
     set_spread (strong_candidates answerField) @
     filter (\<lambda>a. a \<notin> set (strong_candidates answerField))
       (set_spread (accept_candidates answerField)) @
     filter (\<lambda>p. p \<notin> set (strong_candidates answerField) \<union> set (accept_candidates answerField))
       (primary_candidates answerField)"
proof -
  have "set_spread (primary_candidates answerField) = primary_candidates answerField"
    by (simp add: primary_candidates_def set_spread_def)
  then show ?thesis
    by (auto simp: extractAcceptableAnswers_def pushed_answers_eq set_spread_append
          intro: filter_cong)
qed

text \<open>
  C6. The specification excludes two entries equal after normalization. The code removes
  duplicates among the raw entries only: "Duke of Wellington" and "the Duke of Wellington"
  are both returned, and both normalize to "duke wellington".
\<close>

theorem extract_normalized_duplicates:
  "\<not> distinct (map normalizeAnswer (extractAcceptableAnswers
       ''<strong>Duke of Wellington</strong> (accept the Duke of Wellington)''))"
  by code_simp

text \<open>
  C6, as the code has it: no two entries of the result are the same raw string, the
  entries are those pushed, and they stand in the order in which each was pushed first.
\<close>

theorem extract_distinct_first_seen:
  "distinct (extractAcceptableAnswers answerField) \<and>
   set (extractAcceptableAnswers answerField) = set (pushed_answers answerField) \<and>
   sorted_wrt (<) (map (first_seen (pushed_answers answerField))
                      (extractAcceptableAnswers answerField))"
  by (simp add: extractAcceptableAnswers_def distinct_set_spread set_set_spread
        set_spread_first_seen)

section \<open>Properties of streamText\<close>

lemma takeWhile_neq_less: "c \<in> set d \<Longrightarrow> length (takeWhile (\<lambda>x. x \<noteq> c) d) < length d"
  by (induction d) auto

lemma nth_takeWhile_neq: "c \<in> set d \<Longrightarrow> d ! length (takeWhile (\<lambda>x. x \<noteq> c) d) = c"
  by (induction d) auto

lemma take_takeWhile_neq: "c \<notin> set (take (length (takeWhile (\<lambda>x. x \<noteq> c) d)) d)"
  by (induction d) auto

lemma indexOf_Some:
  assumes "indexOf text c i = Some e"
  shows "i \<le> e \<and> e < length text \<and> text ! e = c \<and> c \<notin> set (take (e - i) (drop i text))"
proof -
  let ?d = "drop i text"
  let ?n = "length (takeWhile (\<lambda>x. x \<noteq> c) ?d)"
  from assms have mem: "c \<in> set ?d" and e: "e = i + ?n"
    by (auto simp: indexOf_def split: if_splits)
  from mem have n: "?n < length ?d" by (rule takeWhile_neq_less)
  from mem have "?d ! ?n = c" by (rule nth_takeWhile_neq)
  with n have "text ! (i + ?n) = c" by simp
  moreover from n have "i + ?n < length text" by simp
  moreover have "c \<notin> set (take ?n ?d)" by (rule take_takeWhile_neq)
  ultimately show ?thesis using e by simp
qed

lemma indexOf_None: "indexOf text c i = None \<longleftrightarrow> c \<notin> set (drop i text)"
  by (simp add: indexOf_def)

lemma emit_index:
  assumes "currentCharIndex st < length text"
  shows "currentCharIndex (emit text st) =
     (if text ! currentCharIndex st = CHR ''<''
      then (case indexOf text CHR ''>'' (currentCharIndex st) of
              Some e \<Rightarrow> e + 1 | None \<Rightarrow> currentCharIndex st + 1)
      else currentCharIndex st + 1)"
  by (simp add: emit_def Let_def split: option.split)

lemma emit_display:
  "displayText (emit text st) =
     displayText st @ substring text (currentCharIndex st) (currentCharIndex (emit text st))"
  if "currentCharIndex st < length text"
proof -
  let ?i = "currentCharIndex st"
  have one: "substring text ?i (?i + 1) = [text ! ?i]"
    using that by (simp add: substring_def take_Suc_conv_app_nth hd_drop_conv_nth take_Suc)
  show ?thesis
    using one by (auto simp: emit_def Let_def split: option.split)
qed

lemma emit_other:
  "lastCharTime (emit text st) = lastCharTime st"
  "isPaused (emit text st) = isPaused st"
  "streamingInterval (emit text st) = streamingInterval st"
  "callbacks (emit text st) = callbacks st"
  "innerHTML (emit text st) = displayText (emit text st) @ cursor"
  by (auto simp: emit_def Let_def split: option.split)

lemma emit_progress:
  assumes "currentCharIndex st < length text"
  shows "currentCharIndex st < currentCharIndex (emit text st) \<and>
         currentCharIndex (emit text st) \<le> length text"
  using assms indexOf_Some [of "text" "CHR ''>''" "currentCharIndex st"]
  by (auto simp: emit_index split: option.split)

lemma emit_prefix:
  assumes "currentCharIndex st < length text" and "displayText st = take (currentCharIndex st) text"
  shows "displayText (emit text st) = take (currentCharIndex (emit text st)) text"
proof -
  let ?i = "currentCharIndex st" and ?j = "currentCharIndex (emit text st)"
  from assms(1) have "?i < ?j" using emit_progress by blast
  then have "take ?j text = take ?i text @ take (?j - ?i) (drop ?i text)"
    by (metis add_diff_inverse_nat less_imp_le_nat not_less take_add)
  with assms show ?thesis by (simp add: emit_display substring_def)
qed

lemma not_inside_tag_emit:
  assumes i: "currentCharIndex st < length text"
    and inv: "\<not> inside_tag text (currentCharIndex st)"
  shows "\<not> inside_tag text (currentCharIndex (emit text st))"
proof
  let ?i = "currentCharIndex st" and ?j = "currentCharIndex (emit text st)"
  assume "inside_tag text ?j"
  then obtain p where p: "p < ?j" "text ! p = CHR ''<''"
      "CHR ''>'' \<notin> set (take (?j - p) (drop p text))" "CHR ''>'' \<in> set (drop ?j text)"
    by (auto simp: inside_tag_def)
  consider (tag) e where "text ! ?i = CHR ''<''" "indexOf text CHR ''>'' ?i = Some e"
    | (literal) "text ! ?i = CHR ''<''" "indexOf text CHR ''>'' ?i = None"
    | (char) "text ! ?i \<noteq> CHR ''<''"
    by (cases "indexOf text CHR ''>'' ?i") auto
  then show False
  proof cases
    case tag
    with i have j: "?j = e + 1" by (simp add: emit_index)
    from tag(2) have e: "e < length text" "text ! e = CHR ''>''"
      using indexOf_Some by blast+
    from p(1,2) j e have "p < e" by (cases "p = e") auto
    with e have "drop p text ! (e - p) = CHR ''>''" by simp
    moreover from \<open>p < e\<close> e j have "e - p < length (take (?j - p) (drop p text))" by simp
    ultimately have "CHR ''>'' \<in> set (take (?j - p) (drop p text))"
      by (metis nth_mem nth_take length_take min_less_iff_conj)
    with p(3) show False by contradiction
  next
    case literal
    with i have j: "?j = ?i + 1" by (simp add: emit_index)
    from literal(2) have "CHR ''>'' \<notin> set (drop ?i text)" by (simp add: indexOf_None)
    moreover have "set (drop ?j text) \<subseteq> set (drop ?i text)"
      unfolding j by (rule set_drop_subset_set_drop) simp
    ultimately show False using p(4) by blast
  next
    case char
    with i have j: "?j = ?i + 1" by (simp add: emit_index)
    from p(1,2) j char have "p < ?i" by (cases "p = ?i") auto
    moreover have "set (take (?i - p) (drop p text)) \<subseteq> set (take (?j - p) (drop p text))"
      unfolding j by (rule set_take_subset_set_take) simp
    with p(3) have "CHR ''>'' \<notin> set (take (?i - p) (drop p text))" by blast
    moreover have "set (drop ?j text) \<subseteq> set (drop ?i text)"
      unfolding j by (rule set_drop_subset_set_drop) simp
    with p(4) have "CHR ''>'' \<in> set (drop ?i text)" by blast
    ultimately have "inside_tag text ?i"
      using p(2) by (auto simp: inside_tag_def)
    with inv show False by contradiction
  qed
qed

lemma cursor_ok_tick: "cursor_ok text st \<Longrightarrow> cursor_ok text (tick text input st)"
proof -
  assume ok: "cursor_ok text st"
  obtain speed now where input: "input = (speed, now)" by (cases input)
  show ?thesis
  proof (cases "currentCharIndex st < length text")
    case True
    then have "cursor_ok text (emit text (st\<lparr>lastCharTime := now\<rparr>))"
      using ok not_inside_tag_emit [of "st\<lparr>lastCharTime := now\<rparr>" "text"]
        emit_progress [of "st\<lparr>lastCharTime := now\<rparr>" "text"]
      by (simp add: cursor_ok_def)
    with ok True show ?thesis
      by (simp add: tick_def addNextChar_def input Let_def)
  next
    case False
    with ok show ?thesis
      by (auto simp: tick_def addNextChar_def input Let_def cursor_ok_def)
  qed
qed

lemma cursor_ok_run: "cursor_ok text st \<Longrightarrow> cursor_ok text (run text inputs st)"
  unfolding run_def by (induction inputs arbitrary: st) (simp_all add: cursor_ok_tick)

lemma cursor_ok_start: "cursor_ok text (streamText now st)"
  by (simp add: cursor_ok_def streamText_def inside_tag_def)

text \<open>
  C8. A call of \<open>addNextChar\<close> that emits (not paused, enough time passed, text left)
  moves the cursor past one whole tag, appending the tag from its \<open><\<close> to the first
  \<open>>\<close> after it, when the character at the cursor is \<open><\<close> and a \<open>>\<close> follows; otherwise,
  also at a \<open><\<close> that nothing closes, it appends the one character and moves the cursor
  by one. Either way the cursor moves forward. In no run started by \<open>streamText\<close> does the
  cursor stand strictly inside a tag.
\<close>

theorem cursor_advances_by_tag_or_char:
  "(\<not> isPaused st \<and> 110 - speed \<le> now - lastCharTime st \<and> currentCharIndex st < length text \<longrightarrow>
      (let i = currentCharIndex st; st' = addNextChar text (speed, now) st
       in if text ! i = CHR ''<'' \<and> CHR ''>'' \<in> set (drop i text)
          then \<exists>e. i < e \<and> e < length text \<and> text ! e = CHR ''>'' \<and>
                 CHR ''>'' \<notin> set (take (e - i) (drop i text)) \<and>
                 currentCharIndex st' = e + 1 \<and>
                 displayText st' = displayText st @ take (e + 1 - i) (drop i text)
          else currentCharIndex st' = i + 1 \<and> displayText st' = displayText st @ [text ! i])) \<and>
   \<not> inside_tag text (currentCharIndex (run text inputs (streamText now0 st0)))"
proof (intro conjI impI)
  show "\<not> inside_tag text (currentCharIndex (run text inputs (streamText now0 st0)))"
    using cursor_ok_run [OF cursor_ok_start] by (simp add: cursor_ok_def)
next
  assume h: "\<not> isPaused st \<and> 110 - speed \<le> now - lastCharTime st \<and>
    currentCharIndex st < length text"
  let ?i = "currentCharIndex st"
  let ?s1 = "st\<lparr>lastCharTime := now\<rparr>"
  from h have step: "addNextChar text (speed, now) st = emit text ?s1"
    by (simp add: addNextChar_def Let_def)
  from h have i: "currentCharIndex ?s1 < length text" by simp
  have one: "substring text ?i (?i + 1) = [text ! ?i]"
    using h by (simp add: substring_def take_Suc_conv_app_nth hd_drop_conv_nth take_Suc)
  show "let i = currentCharIndex st; st' = addNextChar text (speed, now) st
       in if text ! i = CHR ''<'' \<and> CHR ''>'' \<in> set (drop i text)
          then \<exists>e. i < e \<and> e < length text \<and> text ! e = CHR ''>'' \<and>
                 CHR ''>'' \<notin> set (take (e - i) (drop i text)) \<and>
                 currentCharIndex st' = e + 1 \<and>
                 displayText st' = displayText st @ take (e + 1 - i) (drop i text)
          else currentCharIndex st' = i + 1 \<and> displayText st' = displayText st @ [text ! i]"
  proof (cases "text ! ?i = CHR ''<'' \<and> CHR ''>'' \<in> set (drop ?i text)")
    case True
    then obtain e where e: "indexOf text CHR ''>'' ?i = Some e"
      by (auto simp: indexOf_def)
    from indexOf_Some [OF e] have f: "?i \<le> e" "e < length text" "text ! e = CHR ''>''"
      "CHR ''>'' \<notin> set (take (e - ?i) (drop ?i text))" by blast+
    from f(1,3) True have "?i < e" by (cases "?i = e") auto
    moreover from e True i have "currentCharIndex (emit text ?s1) = e + 1"
      by (simp add: emit_index)
    moreover from this i have "displayText (emit text ?s1) =
        displayText st @ take (e + 1 - ?i) (drop ?i text)"
      by (simp add: emit_display substring_def)
    ultimately show ?thesis
      using True f step by (auto simp: Let_def)
  next
    case False
    then have "indexOf text CHR ''>'' ?i = None \<or> text ! ?i \<noteq> CHR ''<''"
      by (auto simp: indexOf_None)
    with i have j: "currentCharIndex (emit text ?s1) = ?i + 1"
      by (auto simp: emit_index)
    with i one have "displayText (emit text ?s1) = displayText st @ [text ! ?i]"
      by (simp add: emit_display)
    with j False step show ?thesis by (simp add: Let_def)
  qed
qed

theorem cursor_advances_by_tag_or_char_witness:
  "(\<not> isPaused \<lparr>displayText = ''a'', currentCharIndex = 1, lastCharTime = 0, isPaused = False,
        streamingInterval = True, innerHTML = ''a'' @ cursor, callbacks = 0\<rparr> \<and>
    110 - 100 \<le> 10 - lastCharTime \<lparr>displayText = ''a'', currentCharIndex = 1,
        lastCharTime = 0, isPaused = False, streamingInterval = True,
        innerHTML = ''a'' @ cursor, callbacks = 0\<rparr> \<and>
    currentCharIndex \<lparr>displayText = ''a'', currentCharIndex = 1, lastCharTime = 0,
        isPaused = False, streamingInterval = True, innerHTML = ''a'' @ cursor,
        callbacks = 0\<rparr> < length ''a<b>c'') \<and>
   (let i = currentCharIndex \<lparr>displayText = ''a'', currentCharIndex = 1, lastCharTime = 0,
              isPaused = False, streamingInterval = True, innerHTML = ''a'' @ cursor,
              callbacks = 0\<rparr>;
        st' = addNextChar ''a<b>c'' (100, 10) \<lparr>displayText = ''a'', currentCharIndex = 1,
              lastCharTime = 0, isPaused = False, streamingInterval = True,
              innerHTML = ''a'' @ cursor, callbacks = 0\<rparr>
    in if ''a<b>c'' ! i = CHR ''<'' \<and> CHR ''>'' \<in> set (drop i ''a<b>c'')
       then \<exists>e. i < e \<and> e < length ''a<b>c'' \<and> ''a<b>c'' ! e = CHR ''>'' \<and>
              CHR ''>'' \<notin> set (take (e - i) (drop i ''a<b>c'')) \<and>
              currentCharIndex st' = e + 1 \<and>
              displayText st' = ''a'' @ take (e + 1 - i) (drop i ''a<b>c'')
       else currentCharIndex st' = i + 1 \<and> displayText st' = ''a'' @ [''a<b>c'' ! i]) \<and>
   \<not> inside_tag ''a<b>c'' (currentCharIndex (run ''a<b>c'' [(100, 10), (100, 20)]
       (streamText 0 \<lparr>displayText = [], currentCharIndex = 0, lastCharTime = 0,
          isPaused = False, streamingInterval = False, innerHTML = [], callbacks = 0\<rparr>)))"
  using cursor_advances_by_tag_or_char [of
      "\<lparr>displayText = ''a'', currentCharIndex = 1, lastCharTime = 0, isPaused = False,
        streamingInterval = True, innerHTML = ''a'' @ cursor, callbacks = 0\<rparr>"
      100 10 "''a<b>c''" "[(100, 10), (100, 20)]" 0
      "\<lparr>displayText = [], currentCharIndex = 0, lastCharTime = 0,
          isPaused = False, streamingInterval = False, innerHTML = [], callbacks = 0\<rparr>"]
  by simp

lemma run_done: "\<not> streamingInterval st \<Longrightarrow> run text inputs st = st"
  unfolding run_def by (induction inputs) (simp_all add: tick_def)

lemma run_Cons: "run text (input # inputs) st = run text inputs (tick text input st)"
  by (simp add: run_def)

lemma tick_not_due: "\<not> due input st \<Longrightarrow> tick text input st = st"
  by (cases input) (simp add: tick_def addNextChar_def due_def)

lemma tick_due_emit:
  assumes "due input st" "streamingInterval st" "\<not> isPaused st"
    "currentCharIndex st < length text"
  shows "tick text input st = emit text (st\<lparr>lastCharTime := snd input\<rparr>)"
  using assms by (cases input) (simp add: tick_def addNextChar_def due_def)

lemma tick_due_complete:
  assumes "due input st" "streamingInterval st" "\<not> isPaused st"
    "length text \<le> currentCharIndex st"
  shows "tick text input st =
     st\<lparr>lastCharTime := snd input, streamingInterval := False, innerHTML := displayText st,
        callbacks := callbacks st + 1\<rparr>"
  using assms by (cases input) (simp add: tick_def addNextChar_def due_def)

lemma revealing_completes:
  assumes "revealing text st"
    and "length text - currentCharIndex st < due_ticks text inputs st"
  shows "\<not> streamingInterval (run text inputs st) \<and> innerHTML (run text inputs st) = text \<and>
         displayText (run text inputs st) = text \<and> callbacks (run text inputs st) = 1"
  using assms
proof (induction inputs arbitrary: st)
  case Nil
  then show ?case by simp
next
  case (Cons input inputs)
  note rev = \<open>revealing text st\<close>
  show ?case
  proof (cases "due input st")
    case False
    with Cons.prems show ?thesis
      using Cons.IH [of st] by (simp add: run_Cons tick_not_due)
  next
    case True
    show ?thesis
    proof (cases "currentCharIndex st < length text")
      case False
      with rev have full: "currentCharIndex st = length text" "displayText st = text"
        by (simp_all add: revealing_def)
      from rev True False have
        "tick text input st = st\<lparr>lastCharTime := snd input, streamingInterval := False,
           innerHTML := displayText st, callbacks := callbacks st + 1\<rparr>"
        by (intro tick_due_complete) (simp_all add: revealing_def)
      with rev full show ?thesis
        by (simp add: run_Cons run_done revealing_def)
    next
      case less: True
      let ?s1 = "st\<lparr>lastCharTime := snd input\<rparr>"
      from rev True less have t: "tick text input st = emit text ?s1"
        by (intro tick_due_emit) (simp_all add: revealing_def)
      from less have i: "currentCharIndex ?s1 < length text" by simp
      from rev have d: "displayText ?s1 = take (currentCharIndex ?s1) text"
        by (simp add: revealing_def)
      have "revealing text (emit text ?s1)"
        using rev emit_progress [OF i] emit_prefix [OF i d]
        by (simp add: revealing_def emit_other)
      moreover have "length text - currentCharIndex (emit text ?s1)
          < due_ticks text inputs (emit text ?s1)"
        using Cons.prems(2) True emit_progress [OF i] by (auto simp: t)
      ultimately show ?thesis
        using Cons.IH [of "emit text ?s1"] by (simp add: run_Cons t)
    qed
  qed
qed

lemma revealing_start: "\<not> isPaused st \<Longrightarrow> revealing text (streamText now st)"
  by (simp add: revealing_def streamText_def)

lemma lastCharTime_tick:
  "lastCharTime st \<le> snd input \<Longrightarrow> lastCharTime (tick text input st) \<le> snd input"
  by (cases input) (simp add: tick_def addNextChar_def Let_def emit_other)

lemma due_timer_ticks: "lastCharTime st \<le> t \<Longrightarrow> due_ticks text (timer_ticks t n) st = n"
proof (induction n arbitrary: t st)
  case 0
  then show ?case by simp
next
  case (Suc n)
  from Suc.prems have "due (100, t + 10) st" by (simp add: due_def)
  moreover from Suc.prems have "lastCharTime (tick text (100, t + 10) st) \<le> t + 10"
    using lastCharTime_tick [of st "(100, t + 10)" "text"] by simp
  ultimately show ?case using Suc.IH by simp
qed

text \<open>
  C9. For every text, a reveal started by \<open>streamText\<close> while not paused completes: the
  timer on time makes enough calls, and every run in which more calls than the text has
  characters pass the test of the time ends with the timer cleared, the target element
  and the accumulated increments both equal to the text (no cursor marker), and the
  completion callback run exactly once.
\<close>

theorem stream_to_completion:
  assumes "\<not> isPaused st"
  shows "length text < due_ticks text (timer_ticks now (length text + 1)) (streamText now st) \<and>
    (\<forall>inputs. length text < due_ticks text inputs (streamText now st) \<longrightarrow>
       \<not> streamingInterval (run text inputs (streamText now st)) \<and>
       innerHTML (run text inputs (streamText now st)) = text \<and>
       displayText (run text inputs (streamText now st)) = text \<and>
       callbacks (run text inputs (streamText now st)) = 1)"
proof (intro conjI allI impI)
  have "lastCharTime (streamText now st) \<le> now" by (simp add: streamText_def)
  then have "due_ticks text (timer_ticks now (length text + 1)) (streamText now st)
      = length text + 1"
    by (rule due_timer_ticks)
  then show "length text < due_ticks text (timer_ticks now (length text + 1)) (streamText now st)"
    by linarith
next
  fix inputs
  assume "length text < due_ticks text inputs (streamText now st)"
  then have "length text - currentCharIndex (streamText now st)
      < due_ticks text inputs (streamText now st)"
    by simp
  from revealing_completes [OF revealing_start [OF assms] this]
  show "\<not> streamingInterval (run text inputs (streamText now st))"
    and "innerHTML (run text inputs (streamText now st)) = text"
    and "displayText (run text inputs (streamText now st)) = text"
    and "callbacks (run text inputs (streamText now st)) = 1"
    by blast+
qed

theorem stream_to_completion_witness:
  "\<not> isPaused \<lparr>displayText = ''x'', currentCharIndex = 7, lastCharTime = 0, isPaused = False,
       streamingInterval = False, innerHTML = ''old'' @ cursor, callbacks = 3\<rparr> \<and>
   length ''The <b>battle</b> of Hastings''
     < due_ticks ''The <b>battle</b> of Hastings'' (map (\<lambda>k. (90, 10 * int k)) [1..<61])
         (streamText 0 \<lparr>displayText = ''x'', currentCharIndex = 7, lastCharTime = 0,
            isPaused = False, streamingInterval = False, innerHTML = ''old'' @ cursor,
            callbacks = 3\<rparr>) \<and>
   innerHTML (run ''The <b>battle</b> of Hastings'' (map (\<lambda>k. (90, 10 * int k)) [1..<61])
         (streamText 0 \<lparr>displayText = ''x'', currentCharIndex = 7, lastCharTime = 0,
            isPaused = False, streamingInterval = False, innerHTML = ''old'' @ cursor,
            callbacks = 3\<rparr>)) = ''The <b>battle</b> of Hastings'' \<and>
   callbacks (run ''The <b>battle</b> of Hastings'' (map (\<lambda>k. (90, 10 * int k)) [1..<61])
         (streamText 0 \<lparr>displayText = ''x'', currentCharIndex = 7, lastCharTime = 0,
            isPaused = False, streamingInterval = False, innerHTML = ''old'' @ cursor,
            callbacks = 3\<rparr>)) = 1 \<and>
   strip_tags ''The <b>battle</b> of Hastings'' = ''The battle of Hastings''"
proof -
  have due: "length ''The <b>battle</b> of Hastings''
     < due_ticks ''The <b>battle</b> of Hastings'' (map (\<lambda>k. (90, 10 * int k)) [1..<61])
         (streamText 0 \<lparr>displayText = ''x'', currentCharIndex = 7, lastCharTime = 0,
            isPaused = False, streamingInterval = False, innerHTML = ''old'' @ cursor,
            callbacks = 3\<rparr>)"
    by code_simp
  have stripped: "strip_tags ''The <b>battle</b> of Hastings'' = ''The battle of Hastings''"
    by code_simp
  have idle: "\<not> isPaused \<lparr>displayText = ''x'', currentCharIndex = 7, lastCharTime = 0,
       isPaused = False, streamingInterval = False, innerHTML = ''old'' @ cursor,
       callbacks = 3\<rparr>"
    by simp
  from stream_to_completion [OF idle, of "''The <b>battle</b> of Hastings''" 0] due stripped idle
  show ?thesis by blast
qed

section \<open>Properties of levenshteinDistance and calculateSimilarity\<close>

lemma edit_distance_Nil2 [simp]: "edit_distance xs [] = length xs"
  by (cases xs) simp_all

lemma edit_distance_sym: "edit_distance xs ys = edit_distance ys xs"
  by (induction xs ys rule: edit_distance.induct) (auto simp: min.commute)

lemma edit_distance_Cons1_le: "edit_distance (x # xs) ys \<le> edit_distance xs ys + 1"
  by (cases ys) simp_all

lemma edit_distance_Cons2_le: "edit_distance xs (y # ys) \<le> edit_distance xs ys + 1"
  by (cases xs) simp_all

lemma edit_distance_drop2: "edit_distance xs ys \<le> edit_distance xs (y # ys) + 1"
proof (induction xs arbitrary: y ys)
  case Nil
  then show ?case by simp
next
  case (Cons x xs)
  have "edit_distance (x # xs) ys \<le> edit_distance xs ys + 1"
    by (rule edit_distance_Cons1_le)
  moreover have "edit_distance xs ys \<le> edit_distance xs (y # ys) + 1"
    by (rule Cons.IH)
  ultimately show ?case
    by (simp add: min_le_iff_disj not_le)
qed

lemma edit_distance_drop1: "edit_distance xs ys \<le> edit_distance (x # xs) ys + 1"
  using edit_distance_drop2 [of ys xs x] by (simp add: edit_distance_sym)

lemma edit_distance_same_head:
  "edit_distance (x # xs) (x # ys) = edit_distance xs ys"
  using edit_distance_drop1 [of xs ys x] edit_distance_drop2 [of xs ys x]
  by simp

lemma edit_distance_refl: "edit_distance xs xs = 0"
  by (induction xs) (simp_all add: edit_distance_same_head del: edit_distance.simps(3))

lemma edit_distance_le_max: "edit_distance xs ys \<le> max (length xs) (length ys)"
  by (induction xs ys rule: edit_distance.induct) (auto simp: min_le_iff_disj)

lemma edit_distance_snoc_Nil1:
  "edit_distance [x] (ys @ [y]) =
     min (length ys + (if x = y then 0 else 1)) (min (length ys + 2) (edit_distance [x] ys + 1))"
  by (induction ys) (simp_all add: min_add_distrib_left min.assoc min.commute min.left_commute)

lemma edit_distance_snoc_Nil2:
  "edit_distance (xs @ [x]) [y] =
     min (length xs + (if x = y then 0 else 1)) (min (edit_distance xs [y] + 1) (length xs + 2))"
  using edit_distance_snoc_Nil1 [of y xs x]
  by (simp add: edit_distance_sym [of _ "[y]"] min.commute eq_commute)

lemma edit_distance_snoc:
  "edit_distance (xs @ [x]) (ys @ [y]) =
     min (edit_distance xs ys + (if x = y then 0 else 1))
         (min (edit_distance xs (ys @ [y]) + 1) (edit_distance (xs @ [x]) ys + 1))"
proof (induction xs ys rule: edit_distance.induct)
  case (1 ys)
  then show ?case by (simp add: edit_distance_snoc_Nil1)
next
  case (2 a xs)
  then show ?case using edit_distance_snoc_Nil2 [of "a # xs" x y] by simp
next
  case (3 a xs b ys)
  let ?c = "if x = y then 0 else (1::nat)" and ?e = "if a = b then 0 else (1::nat)"
  from "3.IH" have
    T1: "edit_distance (xs @ [x]) (ys @ [y]) =
      min (edit_distance xs ys + ?c)
        (min (edit_distance xs (ys @ [y]) + 1) (edit_distance (xs @ [x]) ys + 1))" and
    T2: "edit_distance (xs @ [x]) (b # ys @ [y]) =
      min (edit_distance xs (b # ys) + ?c)
        (min (edit_distance xs (b # ys @ [y]) + 1) (edit_distance (xs @ [x]) (b # ys) + 1))" and
    T3: "edit_distance (a # xs @ [x]) (ys @ [y]) =
      min (edit_distance (a # xs) ys + ?c)
        (min (edit_distance (a # xs) (ys @ [y]) + 1) (edit_distance (a # xs @ [x]) ys + 1))"
    by (simp_all only: append_Cons)
  have "edit_distance (a # xs @ [x]) (b # ys @ [y]) =
      min (edit_distance (xs @ [x]) (ys @ [y]) + ?e)
        (min (edit_distance (xs @ [x]) (b # ys @ [y]) + 1)
             (edit_distance (a # xs @ [x]) (ys @ [y]) + 1))"
    by (simp only: edit_distance.simps(3))
  also have "\<dots> =
      min (min (edit_distance xs ys + ?e)
             (min (edit_distance xs (b # ys) + 1) (edit_distance (a # xs) ys + 1)) + ?c)
        (min (min (edit_distance xs (ys @ [y]) + ?e)
               (min (edit_distance xs (b # ys @ [y]) + 1)
                    (edit_distance (a # xs) (ys @ [y]) + 1)) + 1)
             (min (edit_distance (xs @ [x]) ys + ?e)
               (min (edit_distance (xs @ [x]) (b # ys) + 1)
                    (edit_distance (a # xs @ [x]) ys + 1)) + 1))"
    unfolding T1 T2 T3
    by (simp only: min_add_distrib_left min_add_distrib_right min.assoc min.commute
          min.left_commute
          add.assoc add.commute add.left_commute)
  also have "\<dots> =
      min (edit_distance (a # xs) (b # ys) + ?c)
        (min (edit_distance (a # xs) (b # ys @ [y]) + 1)
             (edit_distance (a # xs @ [x]) (b # ys) + 1))"
    by (simp only: edit_distance.simps(3))
  finally show ?case by (simp only: append_Cons)
qed

lemma edit_distance_rev: "edit_distance (rev xs) (rev ys) = edit_distance xs ys"
  by (induction xs ys rule: edit_distance.induct) (simp_all add: edit_distance_snoc)

lemma dist_table_0: "j \<le> length a \<Longrightarrow> dist_table a b 0 j = j"
  by (simp add: dist_table_def)

lemma dist_table_Suc_0: "i \<le> length b \<Longrightarrow> dist_table a b i 0 = i"
  by (simp add: dist_table_def)

lemma dist_table_Suc_Suc:
  assumes "i < length b" and "j < length a"
  shows "dist_table a b (Suc i) (Suc j) =
     (if b ! i = a ! j then dist_table a b i j
      else min (dist_table a b i j + 1)
             (min (dist_table a b (Suc i) j + 1) (dist_table a b i (Suc j) + 1)))"
  using assms
  by (simp add: dist_table_def take_Suc_conv_app_nth edit_distance_same_head min.commute
        del: edit_distance.simps(3))
     (simp add: min.commute)

lemma init_rows_eq: "init_rows b = map (\<lambda>i. [i]) [0..<Suc (length b)]"
proof -
  have "fold (\<lambda>i m. put m i [i]) [0..<n] [] = map (\<lambda>i. [i]) [0..<n]" for n
    by (induction n) (simp_all add: put_def)
  then show ?thesis by (simp only: init_rows_def)
qed

lemma init_first_row_eq:
  assumes "m ! 0 = [0]" and "m \<noteq> []"
  shows "init_first_row a m = m[0 := [0..<Suc (length a)]]"
proof -
  have "fold (\<lambda>j m. m[0 := put (m ! 0) j j]) [0..<Suc n] m = m[0 := [0..<Suc n]]" for n
  proof (induction n)
    case 0
    with assms show ?case by (simp add: put_def list_update_same_conv)
  next
    case (Suc n)
    have "[0..<Suc (Suc n)] = [0..<Suc n] @ [Suc n]" by simp
    then show ?case
      using Suc assms(2) by (simp only: fold_append o_apply) (simp add: put_def)
  qed
  then show ?thesis by (simp only: init_first_row_def)
qed

lemma rows_filled_init: "rows_filled a b 0 (init_first_row a (init_rows b))"
proof -
  let ?m = "init_rows b"
  have m: "?m ! 0 = [0]" "?m \<noteq> []" "length ?m = Suc (length b)"
    by (simp_all add: init_rows_eq nth_map_upt del: upt_Suc)
  have "[0..<Suc (length a)] = map (dist_table a b 0) [0..<Suc (length a)]"
    by (rule nth_equalityI) (simp_all add: dist_table_0 del: upt_Suc)
  moreover have "?m ! i = [i]" if "i \<le> length b" for i
    using that by (simp add: init_rows_eq nth_map_upt del: upt_Suc)
  ultimately show ?thesis
    using m by (simp add: rows_filled_def init_first_row_eq del: upt_Suc)
qed

lemma fill_row_prefix:
  assumes filled: "rows_filled a b (i - 1) m" and i: "1 \<le> i" "i \<le> length b"
    and c: "c \<le> length a"
  shows "fold (\<lambda>j m. fill_cell a b i j m) [1..<Suc c] m
     = m[i := map (dist_table a b i) [0..<Suc c]]"
  using c
proof (induction c)
  case 0
  from filled i have "m ! i = [i]" by (simp add: rows_filled_def)
  then have "m[i := [i]] = m" by (metis list_update_id)
  with i show ?case by (simp add: dist_table_Suc_0)
next
  case (Suc c)
  let ?row = "map (dist_table a b i) [0..<Suc c]"
  let ?m = "m[i := ?row]"
  from filled i have len: "i < length m" by (simp add: rows_filled_def)
  from filled i have up: "m ! (i - 1) = map (dist_table a b (i - 1)) [0..<Suc (length a)]"
    by (simp add: rows_filled_def)
  from i have neq: "i - 1 \<noteq> i" by simp
  from i obtain i' where i': "i = Suc i'" by (cases i) auto
  have cell: "fill_cell a b i (Suc c) ?m = m[i := ?row @ [dist_table a b i (Suc c)]]"
    using Suc.prems len up neq i dist_table_Suc_Suc [of i' b c a]
    by (simp add: fill_cell_def put_def nth_list_update i' nth_append del: upt_Suc)
  have "[1..<Suc (Suc c)] = [1..<Suc c] @ [Suc c]" by simp
  then have "fold (\<lambda>j m. fill_cell a b i j m) [1..<Suc (Suc c)] m
      = fill_cell a b i (Suc c) (fold (\<lambda>j m. fill_cell a b i j m) [1..<Suc c] m)"
    by (simp only: fold_append o_apply fold.simps id_apply)
  also have "\<dots> = fill_cell a b i (Suc c) ?m" using Suc by simp
  also have "\<dots> = m[i := ?row @ [dist_table a b i (Suc c)]]" by (rule cell)
  also have "?row @ [dist_table a b i (Suc c)] = map (dist_table a b i) [0..<Suc (Suc c)]"
    by simp
  finally show ?case .
qed

lemma rows_filled_fill_row:
  assumes "rows_filled a b r m" and "r < length b"
  shows "rows_filled a b (Suc r) (fill_row a b (Suc r) m)"
proof -
  from assms have "fill_row a b (Suc r) m
      = m[Suc r := map (dist_table a b (Suc r)) [0..<Suc (length a)]]"
    unfolding fill_row_def by (intro fill_row_prefix) simp_all
  with assms show ?thesis
    by (auto simp: rows_filled_def nth_list_update le_Suc_eq simp del: upt_Suc)
qed

lemma rows_filled_fill_matrix:
  assumes "rows_filled a b 0 m" and "r \<le> length b"
  shows "rows_filled a b r (fold (\<lambda>i m. fill_row a b i m) [1..<Suc r] m)"
  using assms(2)
proof (induction r)
  case 0
  with assms(1) show ?case by simp
next
  case (Suc r)
  have "[1..<Suc (Suc r)] = [1..<Suc r] @ [Suc r]" by simp
  then have "fold (\<lambda>i m. fill_row a b i m) [1..<Suc (Suc r)] m
      = fill_row a b (Suc r) (fold (\<lambda>i m. fill_row a b i m) [1..<Suc r] m)"
    by (simp only: fold_append o_apply fold.simps id_apply)
  with Suc show ?case by (simp add: rows_filled_fill_row del: upt_Suc)
qed

lemma levenshteinDistance_edit_distance: "levenshteinDistance a b = edit_distance a b"
proof (cases "a = [] \<or> b = []")
  case True
  then show ?thesis by (auto simp: levenshteinDistance_def)
next
  case False
  have "rows_filled a b (length b) (fill_matrix a b (init_first_row a (init_rows b)))"
    unfolding fill_matrix_def by (intro rows_filled_fill_matrix rows_filled_init) simp
  then have "fill_matrix a b (init_first_row a (init_rows b)) ! length b ! length a
      = dist_table a b (length b) (length a)"
    by (simp add: rows_filled_def nth_map_upt del: upt_Suc)
  also have "\<dots> = edit_distance a b"
    by (simp add: dist_table_def edit_distance_rev edit_distance_sym [of b a])
  finally show ?thesis using False by (simp add: levenshteinDistance_def)
qed

lemma similarity_formula:
  assumes "a \<noteq> [] \<or> b \<noteq> []"
  shows "calculateSimilarity a b
     = num_sub (Finite 1)
         (num_div (Finite (of_nat (edit_distance a b)))
            (Finite (of_nat (max (length a) (length b)))))"
proof (cases "a = b")
  case True
  with assms show ?thesis by (simp add: calculateSimilarity_def edit_distance_refl)
next
  case False
  show ?thesis
  proof (cases "a = [] \<or> b = []")
    case True
    with assms False show ?thesis by (auto simp: calculateSimilarity_def)
  next
    case False
    with \<open>a \<noteq> b\<close> show ?thesis
      by (simp add: calculateSimilarity_def levenshteinDistance_edit_distance)
  qed
qed

lemma similarity_range:
  "\<exists>s. calculateSimilarity a b = Finite s \<and> 0 \<le> s \<and> s \<le> 1 \<and>
     (a \<noteq> [] \<or> b \<noteq> [] \<longrightarrow>
        \<bar>s - (1 - of_nat (edit_distance a b) / of_nat (max (length a) (length b)))\<bar>
          \<le> 1 / 2 ^ 52)"
proof (cases "a \<noteq> [] \<or> b \<noteq> []")
  case False
  then show ?thesis by (simp add: calculateSimilarity_def)
next
  case True
  let ?q = "of_nat (edit_distance a b) / of_nat (max (length a) (length b)) :: rat"
  from True have pos: "0 < max (length a) (length b)" by (auto simp: less_max_iff_disj)
  have "(of_nat (edit_distance a b) :: rat) \<le> of_nat (max (length a) (length b))"
    using edit_distance_le_max [of a b] by (simp only: of_nat_le_iff)
  with pos have q: "0 \<le> ?q" "?q \<le> 1" by (simp_all add: divide_le_eq_1)
  then obtain q' where q': "round_to_double ?q = Finite q'" "0 \<le> q'" "q' \<le> 1"
      "\<bar>q' - ?q\<bar> \<le> 1 / 2 ^ 53"
    using round_to_double_unit by blast
  then have "0 \<le> 1 - q'" "1 - q' \<le> 1" by simp_all
  then obtain s where s: "round_to_double (1 - q') = Finite s" "0 \<le> s" "s \<le> 1"
      "\<bar>s - (1 - q')\<bar> \<le> 1 / 2 ^ 53"
    using round_to_double_unit by blast
  from True have nz: "(of_nat (max (length a) (length b)) :: rat) \<noteq> 0" by auto
  have "calculateSimilarity a b = num_sub (Finite 1) (round_to_double ?q)"
    unfolding similarity_formula [OF True] using nz by simp
  also have "\<dots> = Finite s" using q'(1) s(1) by simp
  finally have "calculateSimilarity a b = Finite s" .
  moreover have "\<bar>s - (1 - ?q)\<bar> \<le> 1 / 2 ^ 52"
  proof -
    have "\<bar>s - (1 - q)\<bar> \<le> 2 * d" if "\<bar>q' - q\<bar> \<le> d" "\<bar>s - (1 - q')\<bar> \<le> d"
      for q d :: rat
      using that by linarith
    from this [OF q'(4) s(4)] show ?thesis by simp
  qed
  ultimately show ?thesis using s(2,3) by blast
qed

text \<open>
  C7. The specification has the similarity of all strings \<open>a\<close> and \<open>b\<close> equal to one minus
  the Levenshtein distance over the greater length. For two empty strings that is
  \<open>1 - 0 / 0\<close>, which is no number, and the code returns 1.
\<close>

theorem similarity_formula_both_empty:
  "calculateSimilarity [] [] = Finite 1 \<and>
   num_sub (Finite 1)
     (num_div (Finite (of_nat (levenshteinDistance [] [])))
        (Finite (of_nat (max (length ([] :: string)) (length ([] :: string)))))) = NaN \<and>
   calculateSimilarity [] []
     \<noteq> num_sub (Finite 1)
         (num_div (Finite (of_nat (levenshteinDistance [] [])))
            (Finite (of_nat (max (length ([] :: string)) (length ([] :: string))))))"
  by (simp add: calculateSimilarity_def levenshteinDistance_def)

text \<open>
  C7, as the code has it: the matrix that \<open>levenshteinDistance\<close> fills holds the
  Levenshtein distance with unit costs; for all strings that are not both empty the
  similarity is one minus that distance over the greater length, computed in doubles, and
  so within \<open>1 / 2 ^ 52\<close> of the exact value; the similarity of a string with itself is
  exactly 1, the similarity is exactly 0 when exactly one string is empty, and it always
  is a number between 0 and 1.
\<close>

theorem similarity_is_levenshtein_ratio:
  "levenshteinDistance a b = edit_distance a b \<and>
   (a \<noteq> [] \<or> b \<noteq> [] \<longrightarrow>
      calculateSimilarity a b
        = num_sub (Finite 1)
            (num_div (Finite (of_nat (edit_distance a b)))
               (Finite (of_nat (max (length a) (length b)))))) \<and>
   calculateSimilarity a a = Finite 1 \<and>
   ((a = []) \<noteq> (b = []) \<longrightarrow> calculateSimilarity a b = Finite 0) \<and>
   (\<exists>s. calculateSimilarity a b = Finite s \<and> 0 \<le> s \<and> s \<le> 1 \<and>
      (a \<noteq> [] \<or> b \<noteq> [] \<longrightarrow>
         \<bar>s - (1 - of_nat (edit_distance a b) / of_nat (max (length a) (length b)))\<bar>
           \<le> 1 / 2 ^ 52))"
proof (intro conjI impI)
  show "levenshteinDistance a b = edit_distance a b"
    by (rule levenshteinDistance_edit_distance)
  show "calculateSimilarity a a = Finite 1"
    by (simp add: calculateSimilarity_def)
  show "calculateSimilarity a b = Finite 0" if "(a = []) \<noteq> (b = [])"
    using that by (auto simp: calculateSimilarity_def)
  show "calculateSimilarity a b
      = num_sub (Finite 1)
          (num_div (Finite (of_nat (edit_distance a b)))
             (Finite (of_nat (max (length a) (length b)))))"
    if "a \<noteq> [] \<or> b \<noteq> []"
    using that by (rule similarity_formula)
  show "\<exists>s. calculateSimilarity a b = Finite s \<and> 0 \<le> s \<and> s \<le> 1 \<and>
      (a \<noteq> [] \<or> b \<noteq> [] \<longrightarrow>
         \<bar>s - (1 - of_nat (edit_distance a b) / of_nat (max (length a) (length b)))\<bar>
           \<le> 1 / 2 ^ 52)"
    by (rule similarity_range)
qed

theorem similarity_is_levenshtein_ratio_witness:
  "''kitten'' \<noteq> [] \<and> levenshteinDistance ''kitten'' ''sitting'' = 3 \<and>
   edit_distance ''kitten'' ''sitting'' = 3 \<and>
   calculateSimilarity ''kitten'' ''sitting''
     = num_sub (Finite 1) (num_div (Finite 3) (Finite 7)) \<and>
   (''kitten'' = []) \<noteq> ([] = ([] :: string)) \<and> calculateSimilarity ''kitten'' [] = Finite 0"
proof -
  have d: "edit_distance ''kitten'' ''sitting'' = 3" by code_simp
  have n: "''kitten'' \<noteq> []" "(''kitten'' = []) \<noteq> ([] = ([] :: string))" by simp_all
  have m: "max (length ''kitten'') (length ''sitting'') = 7" by simp
  from similarity_is_levenshtein_ratio [of "''kitten''" "''sitting''"] n(1)
  have "levenshteinDistance ''kitten'' ''sitting'' = edit_distance ''kitten'' ''sitting''"
    and "calculateSimilarity ''kitten'' ''sitting''
      = num_sub (Finite 1)
          (num_div (Finite (of_nat (edit_distance ''kitten'' ''sitting'')))
             (Finite (of_nat (max (length ''kitten'') (length ''sitting'')))))"
    by blast+
  then have 1: "levenshteinDistance ''kitten'' ''sitting'' = 3"
    and 2: "calculateSimilarity ''kitten'' ''sitting''
      = num_sub (Finite 1) (num_div (Finite 3) (Finite 7))"
    unfolding d m by simp_all
  from similarity_is_levenshtein_ratio [of "''kitten''" "[]"] n(2)
  have 3: "calculateSimilarity ''kitten'' [] = Finite 0" by blast
  from n 1 d 2 3 show ?thesis by blast
qed

section \<open>Properties of normalizeAnswer\<close>

lemmas char_class_defs = is_word_char_def is_space_char_def ascii_upper_def ascii_lower_def

lemma space_not_word: "is_space_char c \<Longrightarrow> \<not> is_word_char c"
  by (auto simp: char_class_defs)

lemma space_is_space: "is_space_char CHR '' ''"
  by (simp add: is_space_char_def)

lemma lt_not_kept: "\<not> is_word_char CHR ''<''" "\<not> is_space_char CHR ''<''"
  by (simp_all add: char_class_defs)

lemma lower_char_not_upper:
  "\<forall>c \<in> set (ascii_upper @ latin1_upper). lower_char c \<notin> set (ascii_upper @ latin1_upper)"
  by code_simp

lemma lower_char_fixed: "c \<notin> set (ascii_upper @ latin1_upper) \<Longrightarrow> lower_char c = c"
proof -
  assume "c \<notin> set (ascii_upper @ latin1_upper)"
  then have "map_of (zip (ascii_upper @ latin1_upper) (ascii_lower @ latin1_lower)) c = None"
    by (simp add: map_of_eq_None_iff ascii_upper_def ascii_lower_def latin1_upper_def
          latin1_lower_def)
  then show ?thesis by (simp add: lower_char_def)
qed

lemma lower_char_idem: "lower_char (lower_char c) = lower_char c"
proof (cases "c \<in> set (ascii_upper @ latin1_upper)")
  case True
  with lower_char_not_upper have "lower_char c \<notin> set (ascii_upper @ latin1_upper)" by blast
  then show ?thesis by (rule lower_char_fixed)
next
  case False
  then show ?thesis by (simp add: lower_char_fixed)
qed

lemma stopwords_words: "w \<in> set stopwords \<Longrightarrow> w \<noteq> [] \<and> (\<forall>c \<in> set w. is_word_char c)"
  by (auto simp: stopwords_def char_class_defs)

lemma words_acc_word:
  "\<forall>c \<in> set v. is_word_char c \<Longrightarrow> words_acc w (v @ r) = words_acc (w @ v) r"
  by (induction v arbitrary: w) simp_all

lemma words_of_sep: "\<not> is_word_char c \<Longrightarrow> words_of (c # cs) = words_of cs"
  by (simp add: words_of_def)

lemma words_of_word:
  assumes "w \<noteq> []" and "\<forall>c \<in> set w. is_word_char c" and "boundary_ahead r"
  shows "words_of (w @ r) = w # words_of r"
proof -
  have "words_of (w @ r) = words_acc w r"
    using assms(2) by (simp add: words_of_def words_acc_word)
  also have "\<dots> = w # words_of r"
    using assms(1,3) by (cases r) (simp_all add: words_of_def boundary_ahead_def)
  finally show ?thesis .
qed

lemma chunk_induct [case_names Nil sep word]:
  assumes "P []"
    and "\<And>c cs. \<not> is_word_char c \<Longrightarrow> P cs \<Longrightarrow> P (c # cs)"
    and "\<And>w r. w \<noteq> [] \<Longrightarrow> \<forall>c \<in> set w. is_word_char c \<Longrightarrow> boundary_ahead r \<Longrightarrow> P r
           \<Longrightarrow> P (w @ r)"
  shows "P s"
proof (induction "length s" arbitrary: s rule: less_induct)
  case less
  show ?case
  proof (cases s)
    case Nil
    with assms(1) show ?thesis by simp
  next
    case (Cons c cs)
    show ?thesis
    proof (cases "is_word_char c")
      case False
      with less Cons assms(2) show ?thesis by simp
    next
      case True
      let ?w = "takeWhile is_word_char s" and ?r = "dropWhile is_word_char s"
      from True Cons have w: "?w \<noteq> []" by simp
      have "length ?w + length ?r = length s"
        by (metis length_append takeWhile_dropWhile_id)
      with w have "length ?r < length s" by (cases ?w) simp_all
      then have "P ?r" by (rule less)
      moreover have "\<forall>c \<in> set ?w. is_word_char c"
        using set_takeWhileD by fastforce
      moreover have "boundary_ahead ?r"
        unfolding boundary_ahead_def using hd_dropWhile [of is_word_char s] by blast
      ultimately have "P (?w @ ?r)" using w assms(3) by blast
      then show ?thesis by simp
    qed
  qed
qed

lemma match_alternatives_sep:
  assumes "\<forall>v \<in> set ws. v \<noteq> [] \<and> (\<forall>c \<in> set v. is_word_char c)" and "\<not> is_word_char c"
  shows "match_alternatives ws (c # cs) = None"
  using assms
proof (induction ws)
  case Nil
  then show ?case by simp
next
  case (Cons v ws)
  then obtain a v' where v: "v = a # v'" and a: "is_word_char a" by (cases v) auto
  with Cons.prems(2) have "\<not> prefix v (c # cs)" by auto
  with Cons show ?case by simp
qed

lemma word_match_iff:
  assumes v: "v \<noteq> []" "\<forall>c \<in> set v. is_word_char c"
    and w: "\<forall>c \<in> set w. is_word_char c" and r: "boundary_ahead r"
  shows "prefix v (w @ r) \<and> word_boundary (is_word_char (last v)) (drop (length v) (w @ r))
     \<longleftrightarrow> v = w"
proof
  assume "v = w"
  with v r show "prefix v (w @ r) \<and>
      word_boundary (is_word_char (last v)) (drop (length v) (w @ r))"
    by (auto simp: word_boundary_def boundary_ahead_def)
next
  assume m: "prefix v (w @ r) \<and>
      word_boundary (is_word_char (last v)) (drop (length v) (w @ r))"
  from v have lastv: "is_word_char (last v)" by simp
  from m consider (inside) "prefix v w" | (beyond) us where "v = w @ us" "prefix us r"
    by (auto simp: prefix_append)
  then show "v = w"
  proof cases
    case inside
    then obtain t where t: "w = v @ t" by (auto simp: prefix_def)
    show ?thesis
    proof (cases t)
      case Nil
      with t show ?thesis by simp
    next
      case (Cons d t')
      with t w have "is_word_char d" by simp
      with m t Cons lastv show ?thesis by (simp add: word_boundary_def)
    qed
  next
    case beyond
    show ?thesis
    proof (cases us)
      case Nil
      with beyond show ?thesis by simp
    next
      case (Cons d us')
      with beyond(1) v(2) have "is_word_char d" by simp
      moreover from beyond(2) Cons have "r \<noteq> [] \<and> hd r = d" by (auto simp: prefix_def)
      ultimately show ?thesis using r by (simp add: boundary_ahead_def)
    qed
  qed
qed

lemma match_alternatives_word:
  assumes "\<forall>v \<in> set ws. v \<noteq> [] \<and> (\<forall>c \<in> set v. is_word_char c)"
    and "\<forall>c \<in> set w. is_word_char c" and "boundary_ahead r"
  shows "match_alternatives ws (w @ r) = (if w \<in> set ws then Some (length w) else None)"
  using assms(1)
proof (induction ws)
  case Nil
  then show ?case by simp
next
  case (Cons v ws)
  then have "prefix v (w @ r) \<and>
      word_boundary (is_word_char (last v)) (drop (length v) (w @ r)) \<longleftrightarrow> v = w"
    using assms(2,3) by (intro word_match_iff) simp_all
  with Cons show ?case by auto
qed

lemma remove_stopwords_sep:
  "\<not> is_word_char c \<Longrightarrow> remove_stopwords p (c # cs) = c # remove_stopwords False cs"
  using match_alternatives_sep [of stopwords c cs] stopwords_words
  by (simp add: match_stopword_def)

lemma remove_stopwords_in_word:
  "\<forall>c \<in> set v. is_word_char c \<Longrightarrow> remove_stopwords True (v @ r) = v @ remove_stopwords True r"
  by (induction v) (simp_all add: match_stopword_def word_boundary_def)

declare remove_stopwords.simps(2) [simp del]

lemma remove_stopwords_boundary:
  "boundary_ahead r \<Longrightarrow> remove_stopwords True r = remove_stopwords False r"
  by (cases r) (simp_all add: boundary_ahead_def remove_stopwords_sep)

lemma remove_stopwords_word:
  assumes w: "w \<noteq> []" "\<forall>c \<in> set w. is_word_char c" and r: "boundary_ahead r"
  shows "remove_stopwords False (w @ r)
     = (if w \<in> set stopwords then [] else w) @ remove_stopwords False r"
proof -
  from w obtain c w' where cw: "w = c # w'" by (cases w) auto
  with w have c: "is_word_char c" and w': "\<forall>c \<in> set w'. is_word_char c" by simp_all
  have m: "match_stopword False (c # w' @ r)
      = (if w \<in> set stopwords then Some (length w) else None)"
    using match_alternatives_word [of stopwords w r] stopwords_words w(2) r c
    by (simp add: match_stopword_def word_boundary_def cw)
  show ?thesis
  proof (cases "w \<in> set stopwords")
    case True
    from w have "is_word_char (w ! (length w - 1))" by simp
    moreover from w(1) have "(w @ r) ! (length w - 1) = w ! (length w - 1)"
      by (simp add: nth_append)
    ultimately have "is_word_char ((c # w' @ r) ! (length w - 1))"
      by (simp add: cw)
    with True m show ?thesis
      using remove_stopwords_boundary [OF r] by (simp add: cw remove_stopwords.simps(2))
  next
    case False
    with m c show ?thesis
      using remove_stopwords_in_word [OF w', of r] remove_stopwords_boundary [OF r]
      by (simp add: cw remove_stopwords.simps(2))
  qed
qed

lemma remove_stopwords_boundary_ahead:
  "boundary_ahead r \<Longrightarrow> boundary_ahead (remove_stopwords False r)"
  by (cases r) (simp_all add: boundary_ahead_def remove_stopwords_sep)

lemma words_of_remove_stopwords:
  "words_of (remove_stopwords False s) = filter (\<lambda>w. w \<notin> set stopwords) (words_of s)"
proof (induction s rule: chunk_induct)
  case Nil
  then show ?case by (simp add: words_of_def)
next
  case (sep c cs)
  then show ?case by (simp add: remove_stopwords_sep words_of_sep)
next
  case (word w r)
  then show ?case
    by (simp add: remove_stopwords_word words_of_word remove_stopwords_boundary_ahead)
qed

lemma remove_stopwords_id:
  "\<forall>w \<in> set (words_of s). w \<notin> set stopwords \<Longrightarrow> remove_stopwords False s = s"
proof (induction s rule: chunk_induct)
  case Nil
  then show ?case by simp
next
  case (sep c cs)
  then show ?case by (simp add: remove_stopwords_sep words_of_sep)
next
  case (word w r)
  then show ?case by (simp add: remove_stopwords_word words_of_word)
qed

lemma set_remove_stopwords: "set (remove_stopwords False s) \<subseteq> set s"
proof (induction s rule: chunk_induct)
  case Nil
  then show ?case by simp
next
  case (sep c cs)
  then show ?case by (auto simp: remove_stopwords_sep)
next
  case (word w r)
  then show ?case by (auto simp: remove_stopwords_word)
qed

lemma words_acc_snoc_sep: "\<not> is_word_char c \<Longrightarrow> words_acc w (y @ [c]) = words_acc w y"
  by (induction y arbitrary: w) simp_all

lemma words_of_dropWhile_space: "words_of (dropWhile is_space_char y) = words_of y"
  by (induction y) (simp_all add: words_of_sep space_not_word)

lemma words_of_drop_trailing:
  "words_of (rev (dropWhile is_space_char (rev y))) = words_of y"
proof (induction y rule: rev_induct)
  case Nil
  then show ?case by simp
next
  case (snoc c y)
  then show ?case
    by (simp add: words_of_def words_acc_snoc_sep space_not_word)
qed

lemma words_of_trim: "words_of (trim y) = words_of y"
  by (simp add: trim_def words_of_drop_trailing words_of_dropWhile_space)

lemma words_acc_collapse: "words_acc w (collapse_spaces y) = words_acc w y"
proof (induction y arbitrary: w rule: collapse_spaces.induct)
  case 1
  then show ?case by simp
next
  case (2 c cs)
  show ?case
  proof (cases "is_space_char c")
    case True
    with 2 have "words_acc [] (collapse_spaces (dropWhile is_space_char cs)) = words_acc [] cs"
      using words_of_dropWhile_space [of cs] by (simp add: words_of_def)
    with True show ?thesis by (simp add: space_not_word space_is_space)
  next
    case False
    with 2 show ?thesis by simp
  qed
qed

lemma words_of_collapse: "words_of (collapse_spaces y) = words_of y"
  by (simp add: words_of_def words_acc_collapse)

lemma set_collapse: "set (collapse_spaces y) \<subseteq> insert CHR '' '' (set y)"
proof (induction y rule: collapse_spaces.induct)
  case 1
  then show ?case by simp
next
  case (2 c cs)
  then show ?case using set_dropWhileD [of _ is_space_char cs] by (cases "is_space_char c") auto
qed

lemma set_trim: "set (trim y) \<subseteq> set y"
proof
  fix c
  assume "c \<in> set (trim y)"
  then have "c \<in> set (dropWhile is_space_char (rev (dropWhile is_space_char y)))"
    by (simp only: trim_def set_rev)
  then have "c \<in> set (rev (dropWhile is_space_char y))" by (rule set_dropWhileD)
  then have "c \<in> set (dropWhile is_space_char y)" by (simp only: set_rev)
  then show "c \<in> set y" by (rule set_dropWhileD)
qed

lemma strip_tags_id: "CHR ''<'' \<notin> set y \<Longrightarrow> strip_tags y = y"
  by (induction y) auto

lemma dropWhile_last:
  "xs \<noteq> [] \<Longrightarrow> \<not> P (last xs) \<Longrightarrow> dropWhile P xs \<noteq> [] \<and> last (dropWhile P xs) = last xs"
  by (induction xs) (auto split: if_splits)

lemma dropWhile_hd_id: "xs = [] \<or> \<not> P (hd xs) \<Longrightarrow> dropWhile P xs = xs"
  by (cases xs) auto

lemma trimmed_trim: "trimmed (trim y)"
proof (cases "dropWhile is_space_char y")
  case Nil
  then show ?thesis by (simp only: trim_def trimmed_def rev.simps dropWhile.simps) simp
next
  case (Cons c cs)
  let ?y1 = "dropWhile is_space_char y"
  let ?d = "dropWhile is_space_char (rev ?y1)"
  from Cons have ne: "?y1 \<noteq> []" by simp
  then have h: "\<not> is_space_char (hd ?y1)" by (rule hd_dropWhile)
  from ne have "rev ?y1 \<noteq> []" by simp
  moreover from h have "\<not> is_space_char (last (rev ?y1))" by (metis last_rev)
  ultimately have d: "?d \<noteq> [] \<and> last ?d = last (rev ?y1)" by (rule dropWhile_last)
  then have "\<not> is_space_char (hd ?d)" using hd_dropWhile by blast
  then have "\<not> is_space_char (last (rev ?d))" by (metis last_rev)
  moreover from d h have "\<not> is_space_char (hd (rev ?d))" by (metis hd_rev last_rev)
  moreover from d have "rev ?d \<noteq> []" by simp
  ultimately show ?thesis by (simp only: trim_def trimmed_def) simp
qed

lemma trim_id: "trimmed y \<Longrightarrow> trim y = y"
proof -
  assume t: "trimmed y"
  then have "y = [] \<or> \<not> is_space_char (hd y)" by (auto simp: trimmed_def)
  then have 1: "dropWhile is_space_char y = y" by (rule dropWhile_hd_id)
  from t have "rev y = [] \<or> \<not> is_space_char (hd (rev y))"
    by (auto simp: trimmed_def hd_rev)
  then have "dropWhile is_space_char (rev y) = rev y" by (rule dropWhile_hd_id)
  with 1 show ?thesis by (simp only: trim_def rev_rev_ident)
qed

lemma collapse_last:
  "y \<noteq> [] \<Longrightarrow> \<not> is_space_char (last y)
     \<Longrightarrow> collapse_spaces y \<noteq> [] \<and> last (collapse_spaces y) = last y"
proof (induction y rule: collapse_spaces.induct)
  case 1
  then show ?case by simp
next
  case (2 c cs)
  show ?case
  proof (cases "is_space_char c")
    case True
    with "2.prems" have cs: "cs \<noteq> []" "\<not> is_space_char (last cs)" by (auto split: if_splits)
    then have "dropWhile is_space_char cs \<noteq> [] \<and> last (dropWhile is_space_char cs) = last cs"
      by (rule dropWhile_last)
    with True cs 2 show ?thesis by simp
  next
    case False
    with 2 show ?thesis by (cases cs) auto
  qed
qed

lemma trimmed_collapse: "trimmed y \<Longrightarrow> trimmed (collapse_spaces y)"
proof (cases y)
  case Nil
  then show ?thesis by (simp add: trimmed_def)
next
  case (Cons c cs)
  assume "trimmed y"
  with Cons have c: "\<not> is_space_char c" and l: "\<not> is_space_char (last y)"
    by (simp_all add: trimmed_def)
  from Cons l have "last (collapse_spaces y) = last y" using collapse_last [of y] by simp
  with Cons c l show ?thesis by (simp add: trimmed_def)
qed

lemma collapse_head:
  "y = [] \<or> \<not> is_space_char (hd y)
     \<Longrightarrow> collapse_spaces y = [] \<or> \<not> is_space_char (hd (collapse_spaces y))"
  by (cases y) auto

lemma collapse_idem: "collapse_spaces (collapse_spaces y) = collapse_spaces y"
proof (induction y rule: collapse_spaces.induct)
  case 1
  then show ?case by simp
next
  case (2 c cs)
  show ?case
  proof (cases "is_space_char c")
    case True
    let ?x = "collapse_spaces (dropWhile is_space_char cs)"
    have "dropWhile is_space_char cs = [] \<or> \<not> is_space_char (hd (dropWhile is_space_char cs))"
      by (metis hd_dropWhile)
    then have "?x = [] \<or> \<not> is_space_char (hd ?x)" by (rule collapse_head)
    then have "dropWhile is_space_char ?x = ?x" by (cases ?x) auto
    with True 2 show ?thesis by (simp add: space_is_space)
  next
    case False
    with 2 show ?thesis by simp
  qed
qed

lemma lower_char_word:
  "\<forall>c \<in> set (ascii_upper @ ascii_lower @ ''0123456789_''). is_word_char (lower_char c)"
  by code_simp

lemma lower_char_keeps_space: "is_space_char c \<Longrightarrow> lower_char c = c"
  by (rule lower_char_fixed)
     (auto simp: is_space_char_def ascii_upper_def latin1_upper_def)

lemma kept_lower_normalizeAnswer: "kept_lower (normalizeAnswer s)"
proof -
  let ?x = "toLowerCase (strip_tags s)"
  let ?u = "strip_punctuation (remove_stopwords False ?x)"
  have "(is_word_char c \<or> is_space_char c) \<and> lower_char c = c"
    if "c \<in> set (normalizeAnswer s)" for c
  proof -
    from that have "c \<in> insert CHR '' '' (set (trim ?u))"
      using set_collapse [of "trim ?u"] by (auto simp: normalizeAnswer_def)
    then consider "c = CHR '' ''" | "c \<in> set ?u" using set_trim [of ?u] by auto
    then show ?thesis
    proof cases
      case 1
      then show ?thesis by (simp add: space_is_space lower_char_keeps_space)
    next
      case 2
      then have k: "is_word_char c \<or> is_space_char c" and "c \<in> set (remove_stopwords False ?x)"
        by (simp_all add: strip_punctuation_def)
      then have "c \<in> set ?x" using set_remove_stopwords [of ?x] by blast
      then have "lower_char c = c" by (auto simp: toLowerCase_def lower_char_idem)
      with k show ?thesis by simp
    qed
  qed
  then show ?thesis by (simp add: kept_lower_def)
qed

lemma normalizeAnswer_kept_lower:
  assumes "kept_lower z"
  shows "normalizeAnswer z = collapse_spaces (trim (remove_stopwords False z))"
proof -
  from assms have "CHR ''<'' \<notin> set z"
    using lt_not_kept by (auto simp: kept_lower_def)
  then have 1: "strip_tags z = z" by (rule strip_tags_id)
  from assms have 2: "toLowerCase z = z"
    by (simp add: toLowerCase_def kept_lower_def map_idI)
  from assms have "\<forall>c \<in> set (remove_stopwords False z). is_word_char c \<or> is_space_char c"
    using set_remove_stopwords [of z] by (auto simp: kept_lower_def)
  then have 3: "strip_punctuation (remove_stopwords False z) = remove_stopwords False z"
    by (simp add: strip_punctuation_def)
  show ?thesis by (simp add: normalizeAnswer_def 1 2 3)
qed

lemma normalizeAnswer_tidy:
  "trim (normalizeAnswer s) = normalizeAnswer s"
  "collapse_spaces (normalizeAnswer s) = normalizeAnswer s"
  by (simp_all add: normalizeAnswer_def Let_def collapse_idem trim_id trimmed_collapse
        trimmed_trim)

lemma words_of_normalizeAnswer_kept_lower:
  "kept_lower z \<Longrightarrow>
     words_of (normalizeAnswer z) = filter (\<lambda>w. w \<notin> set stopwords) (words_of z)"
  by (simp add: normalizeAnswer_kept_lower words_of_collapse words_of_trim
        words_of_remove_stopwords)

lemma normalizeAnswer_fixed_iff:
  assumes "kept_lower z" and "trim z = z" and "collapse_spaces z = z"
  shows "normalizeAnswer z = z \<longleftrightarrow> set (words_of z) \<inter> set stopwords = {}"
proof
  assume "set (words_of z) \<inter> set stopwords = {}"
  then have "remove_stopwords False z = z" by (intro remove_stopwords_id) auto
  with assms show "normalizeAnswer z = z" by (simp add: normalizeAnswer_kept_lower)
next
  assume "normalizeAnswer z = z"
  with assms(1) have "filter (\<lambda>w. w \<notin> set stopwords) (words_of z) = words_of z"
    using words_of_normalizeAnswer_kept_lower [of z] by simp
  then have "\<forall>w \<in> set (words_of z). w \<notin> set stopwords" by (simp only: filter_id_conv)
  then show "set (words_of z) \<inter> set stopwords = {}" by auto
qed

lemma words_of_normalizeAnswer_plain:
  assumes "\<forall>c \<in> set (strip_tags s). is_word_char c \<or> is_space_char c"
  shows "words_of (normalizeAnswer s)
     = filter (\<lambda>w. w \<notin> set stopwords) (words_of (toLowerCase (strip_tags s)))"
proof -
  let ?x = "toLowerCase (strip_tags s)"
  have "is_word_char c \<or> is_space_char c" if "c \<in> set ?x" for c
  proof -
    from that obtain d where d: "d \<in> set (strip_tags s)" "c = lower_char d"
      by (auto simp: toLowerCase_def)
    with assms consider "is_word_char d" | "is_space_char d" by blast
    then show ?thesis
    proof cases
      case 1
      then have "d \<in> set (ascii_upper @ ascii_lower @ ''0123456789_'')"
        by (simp only: is_word_char_def)
      with lower_char_word have "is_word_char (lower_char d)" by blast
      with d show ?thesis by simp
    next
      case 2
      with d show ?thesis by (simp add: lower_char_keeps_space)
    qed
  qed
  then have "\<forall>c \<in> set (remove_stopwords False ?x). is_word_char c \<or> is_space_char c"
    using set_remove_stopwords [of ?x] by blast
  then have "strip_punctuation (remove_stopwords False ?x) = remove_stopwords False ?x"
    by (simp add: strip_punctuation_def)
  then show ?thesis
    by (simp add: normalizeAnswer_def words_of_collapse words_of_trim
          words_of_remove_stopwords)
qed

text \<open>
  C3. The specification requires \<open>normalizeAnswer\<close> to be idempotent. The code removes
  the stopwords before it removes the punctuation, so a stopword that punctuation spelled
  apart survives the first pass and falls to the second: "O.R. Tambo" normalizes to
  "or tambo", and that to "tambo".
\<close>

theorem normalizeAnswer_not_idempotent:
  "normalizeAnswer (normalizeAnswer ''O.R. Tambo'') \<noteq> normalizeAnswer ''O.R. Tambo''"
  by code_simp

text \<open>
  C3, as the code has it: a second application of \<open>normalizeAnswer\<close> changes the result
  of the first exactly when one of its words is a stopword; a third application never
  changes the result of the second; and \<open>normalizeAnswer\<close> is idempotent on every text
  that, outside its markup tags, has word characters and spaces only.
\<close>

theorem normalizeAnswer_idempotent_iff:
  "(normalizeAnswer (normalizeAnswer s) = normalizeAnswer s
      \<longleftrightarrow> set (words_of (normalizeAnswer s)) \<inter> set stopwords = {}) \<and>
   normalizeAnswer (normalizeAnswer (normalizeAnswer s)) = normalizeAnswer (normalizeAnswer s) \<and>
   ((\<forall>c \<in> set (strip_tags s). is_word_char c \<or> is_space_char c)
      \<longrightarrow> normalizeAnswer (normalizeAnswer s) = normalizeAnswer s)"
proof (intro conjI impI)
  show iff: "normalizeAnswer (normalizeAnswer s) = normalizeAnswer s
      \<longleftrightarrow> set (words_of (normalizeAnswer s)) \<inter> set stopwords = {}" for s
    by (intro normalizeAnswer_fixed_iff kept_lower_normalizeAnswer normalizeAnswer_tidy)
  have "words_of (normalizeAnswer (normalizeAnswer s))
      = filter (\<lambda>w. w \<notin> set stopwords) (words_of (normalizeAnswer s))"
    by (intro words_of_normalizeAnswer_kept_lower kept_lower_normalizeAnswer)
  then have "set (words_of (normalizeAnswer (normalizeAnswer s))) \<inter> set stopwords = {}"
    by auto
  then show "normalizeAnswer (normalizeAnswer (normalizeAnswer s))
      = normalizeAnswer (normalizeAnswer s)"
    by (simp only: iff)
  assume "\<forall>c \<in> set (strip_tags s). is_word_char c \<or> is_space_char c"
  then have "set (words_of (normalizeAnswer s)) \<inter> set stopwords = {}"
    by (auto simp: words_of_normalizeAnswer_plain)
  then show "normalizeAnswer (normalizeAnswer s) = normalizeAnswer s"
    by (simp only: iff)
qed

theorem normalizeAnswer_idempotent_iff_witness:
  "list_all (\<lambda>c. is_word_char c \<or> is_space_char c) (strip_tags ''<b>Duke</b> of Wellington'') \<and>
   normalizeAnswer ''<b>Duke</b> of Wellington'' = ''duke wellington'' \<and>
   normalizeAnswer (normalizeAnswer ''<b>Duke</b> of Wellington'')
     = normalizeAnswer ''<b>Duke</b> of Wellington''"
proof -
  have plain: "list_all (\<lambda>c. is_word_char c \<or> is_space_char c)
      (strip_tags ''<b>Duke</b> of Wellington'')"
    by code_simp
  have n: "normalizeAnswer ''<b>Duke</b> of Wellington'' = ''duke wellington''"
    by code_simp
  from plain have "\<forall>c \<in> set (strip_tags ''<b>Duke</b> of Wellington'').
      is_word_char c \<or> is_space_char c"
    by (simp only: list_all_iff)
  with normalizeAnswer_idempotent_iff [of "''<b>Duke</b> of Wellington''"]
  have "normalizeAnswer (normalizeAnswer ''<b>Duke</b> of Wellington'')
      = normalizeAnswer ''<b>Duke</b> of Wellington''"
    by blast
  with plain n show ?thesis by blast
qed

end
